theory Spec2Isabelle
  imports Complex_Main "HOL-Library.Word" "HOL-Library.AList" "HOL-Library.Multiset"
begin

unbundle bit_operations_syntax

section \<open>Python values and exceptions\<close>

text \<open>
  The model covers the file traversal and text classification substrate of
  \<^verbatim>\<open>llm_context/toolbelt.py\<close>: \<^verbatim>\<open>is_binary_bytes\<close>, \<^verbatim>\<open>read_text_safe\<close>,
  \<^verbatim>\<open>iter_files\<close>, \<^verbatim>\<open>report_path\<close> and \<^verbatim>\<open>write_text\<close>.

  A Python \<^verbatim>\<open>bytes\<close> object is a list of 8-bit words. A Python \<^verbatim>\<open>str\<close> holding file
  content is a list of Unicode code points. File names are HOL strings.
  Every exception the modelled code can raise is a value of \<open>py_error\<close>, and a
  computation that may raise returns \<open>py_error + 'a\<close> with \<open>Inl\<close> for the exception.
\<close>

type_synonym byte = "8 word"
type_synonym bytes = "byte list"
type_synonym pystr = "nat list"
type_synonym path = "string list"

datatype os_error =
    FileNotFoundError
  | PermissionError
  | IsADirectoryError
  | NotADirectoryError
  | FileExistsError
  | IOError

datatype py_error =
    OSError os_error
  | ZeroDivisionError
  | UnicodeDecodeError
  | UnicodeEncodeError
  | ValueError
  | KeyboardInterrupt

text \<open>
  \<^verbatim>\<open>except Exception\<close> catches every class derived from \<^verbatim>\<open>Exception\<close>. Of the
  exceptions above only \<^verbatim>\<open>KeyboardInterrupt\<close> derives from \<^verbatim>\<open>BaseException\<close> directly.
\<close>

definition is_Exception :: "py_error \<Rightarrow> bool" where
  "is_Exception e \<longleftrightarrow> e \<noteq> KeyboardInterrupt"

definition str_of :: "string \<Rightarrow> pystr" where
  "str_of s = map of_char s"

section \<open>Binary detection\<close>

text \<open>
  \<^verbatim>\<open>
  def is_binary_bytes(chunk: bytes) -> bool:
      if b"\0" in chunk:
          return True
      text_characters = bytearray({7, 8, 9, 10, 12, 13, 27} | set(range(0x20, 0x100)))
      nontext = chunk.translate(None, text_characters)
      return float(len(nontext)) / max(1, len(chunk)) > 0.30
  \<close>
  \<^verbatim>\<open>bytes.translate(None, delete)\<close> removes every byte that occurs in \<^verbatim>\<open>delete\<close>.
  Python's \<^verbatim>\<open>/\<close> raises \<^verbatim>\<open>ZeroDivisionError\<close> on a zero divisor; the model keeps that
  branch. The quotient is computed here in exact rational arithmetic. Python computes
  it in IEEE double precision, correctly rounded, and compares it with the double
  nearest to 0.30; for a sample of fewer than \<open>2 ^ 50\<close> bytes a quotient that differs
  from \<open>3 / 10\<close> differs from it by more than the rounding error, so both comparisons
  give the same answer.
\<close>

definition text_characters :: bytes where
  "text_characters = [7, 8, 9, 10, 12, 13, 27] @ map of_nat [0x20 ..< 0x100]"

definition bytes_translate_delete :: "bytes \<Rightarrow> bytes \<Rightarrow> bytes" where
  "bytes_translate_delete chunk delete = filter (\<lambda>b. b \<notin> set delete) chunk"

definition py_truediv :: "nat \<Rightarrow> nat \<Rightarrow> py_error + rat" where
  "py_truediv a b = (if b = 0 then Inl ZeroDivisionError else Inr (of_nat a / of_nat b))"

definition is_binary_bytes :: "bytes \<Rightarrow> py_error + bool" where
  "is_binary_bytes chunk =
     (if 0 \<in> set chunk then Inr True
      else
        let nontext = bytes_translate_delete chunk text_characters in
        case py_truediv (length nontext) (max 1 (length chunk)) of
          Inl e \<Rightarrow> Inl e
        | Inr q \<Rightarrow> Inr (q > 3 / 10))"

text \<open>
  The specification's wording of the classifier, for comparison: a byte is outside
  the text set when it is not one of 7, 8, 9, 10, 12, 13, 27 and not in the range
  0x20 to 0xFF; the fraction of such bytes in a sample is their number divided by
  the sample's length (0 for the empty sample, which has no fraction).
\<close>

definition outside_text_set :: "byte \<Rightarrow> bool" where
  "outside_text_set b \<longleftrightarrow> b \<notin> {7, 8, 9, 10, 12, 13, 27} \<and> (b < 0x20 \<or> 0xFF < b)"

definition fraction_outside :: "bytes \<Rightarrow> rat" where
  "fraction_outside sample =
     (if sample = [] then 0
      else of_nat (length (filter outside_text_set sample)) / of_nat (length sample))"

section \<open>The filesystem\<close>

text \<open>
  The filesystem is a tree. A regular file holds its bytes; a directory holds its
  entries in the order in which the operating system lists them. Each node carries an
  optional fault: a file with fault \<open>Some e\<close> cannot be opened (\<open>e\<close> is raised, for
  example \<open>PermissionError\<close> or \<open>IOError\<close>), a directory with fault \<open>Some e\<close> cannot be
  listed. Symbolic links are not modelled.

  A \<open>path\<close> is an absolute path given by its components: \<^verbatim>\<open>/a/b/c.txt\<close> is
  \<open>[''a'', ''b'', ''c.txt'']\<close> and \<^verbatim>\<open>/\<close> is \<open>[]\<close>. \<^verbatim>\<open>os.path.join(root, name)\<close> with a plain
  name appends one component.
\<close>

datatype fsnode =
    File "os_error option" bytes
  | Dir "os_error option" "(string \<times> fsnode) list"

fun is_dir :: "fsnode \<Rightarrow> bool" where
  "is_dir (Dir f es) = True"
| "is_dir (File f c) = False"

lemma size_map_of: "map_of es n = Some c \<Longrightarrow> size c < size (Dir f es)"
proof -
  assume "map_of es n = Some c"
  then have "(n, c) \<in> set es" by (rule map_of_SomeD)
  then show ?thesis by (induction es) auto
qed

function lookup :: "fsnode \<Rightarrow> path \<Rightarrow> os_error + fsnode" where
  "lookup node [] = Inr node"
| "lookup (File f c) (n # ns) = Inl NotADirectoryError"
| "lookup (Dir f es) (n # ns) =
     (case map_of es n of
        None \<Rightarrow> Inl FileNotFoundError
      | Some child \<Rightarrow> lookup child ns)"
  by pat_completeness auto
termination
  by (relation "measure (\<lambda>(t, p). length p)") auto

text \<open>
  A path string with an embedded null character is refused by every system call
  with \<^verbatim>\<open>ValueError\<close>, before the filesystem is consulted.
\<close>

definition has_nul :: "path \<Rightarrow> bool" where
  "has_nul p = list_ex (\<lambda>c. CHR 0x00 \<in> set c) p"

text \<open>
  \<^verbatim>\<open>os.path.getsize(path)\<close> is the \<^verbatim>\<open>st_size\<close> of \<^verbatim>\<open>os.stat(path)\<close>. For a regular file
  it is the number of bytes; for a directory it is what the filesystem reports for
  the directory itself, taken here as one block.
\<close>

definition dir_st_size :: nat where
  "dir_st_size = 4096"

definition os_path_getsize :: "fsnode \<Rightarrow> path \<Rightarrow> py_error + nat" where
  "os_path_getsize fs p =
     (if has_nul p then Inl ValueError
      else (case lookup fs p of
              Inl e \<Rightarrow> Inl (OSError e)
            | Inr (File f c) \<Rightarrow> Inr (length c)
            | Inr (Dir f es) \<Rightarrow> Inr dir_st_size))"

text \<open>\<^verbatim>\<open>with open(path, "rb") as f: data = f.read()\<close>\<close>

definition open_rb_read :: "fsnode \<Rightarrow> path \<Rightarrow> py_error + bytes" where
  "open_rb_read fs p =
     (if has_nul p then Inl ValueError
      else (case lookup fs p of
              Inl e \<Rightarrow> Inl (OSError e)
            | Inr (Dir f es) \<Rightarrow> Inl (OSError IsADirectoryError)
            | Inr (File (Some e) c) \<Rightarrow> Inl (OSError e)
            | Inr (File None c) \<Rightarrow> Inr c))"

section \<open>UTF-8\<close>

text \<open>
  \<^verbatim>\<open>bytes.decode("utf-8", errors=...)\<close> as CPython implements it. \<open>utf8_next\<close> reads
  one code point from the front of a non-empty byte string: it returns the code
  point and the number of bytes it took, or \<open>None\<close> and the number of bytes of the
  ill-formed sequence (the offending lead byte, or the well-formed prefix that is
  cut short by a wrong byte or by the end of the data). Overlong forms, surrogates
  and values above U+10FFFF are ill-formed.
\<close>

datatype errors_mode = Strict | Replace

definition is_continuation :: "byte \<Rightarrow> bool" where
  "is_continuation b \<longleftrightarrow> 0x80 \<le> b \<and> b \<le> 0xBF"

definition cont_bits :: "byte \<Rightarrow> nat" where
  "cont_bits b = unat (b AND 0x3F)"

fun utf8_next :: "bytes \<Rightarrow> nat option \<times> nat" where
  "utf8_next [] = (None, 0)"
| "utf8_next (b0 # r) =
     (if b0 < 0x80 then (Some (unat b0), 1)
      else if b0 < 0xC2 then (None, 1)
      else if b0 < 0xE0 then
        (case r of
           [] \<Rightarrow> (None, 1)
         | b1 # r1 \<Rightarrow>
             if \<not> is_continuation b1 then (None, 1)
             else (Some (unat (b0 AND 0x1F) * 64 + cont_bits b1), 2))
      else if b0 < 0xF0 then
        (case r of
           [] \<Rightarrow> (None, 1)
         | b1 # r1 \<Rightarrow>
             if \<not> is_continuation b1 \<or> (if b1 < 0xA0 then b0 = 0xE0 else b0 = 0xED)
             then (None, 1)
             else
               (case r1 of
                  [] \<Rightarrow> (None, 2)
                | b2 # r2 \<Rightarrow>
                    if \<not> is_continuation b2 then (None, 2)
                    else (Some (unat (b0 AND 0x0F) * 4096 + cont_bits b1 * 64
                                + cont_bits b2), 3)))
      else if b0 < 0xF5 then
        (case r of
           [] \<Rightarrow> (None, 1)
         | b1 # r1 \<Rightarrow>
             if \<not> is_continuation b1 \<or> (if b1 < 0x90 then b0 = 0xF0 else b0 = 0xF4)
             then (None, 1)
             else
               (case r1 of
                  [] \<Rightarrow> (None, 2)
                | b2 # r2 \<Rightarrow>
                    if \<not> is_continuation b2 then (None, 2)
                    else
                      (case r2 of
                         [] \<Rightarrow> (None, 3)
                       | b3 # r3 \<Rightarrow>
                           if \<not> is_continuation b3 then (None, 3)
                           else (Some (unat (b0 AND 0x07) * 262144 + cont_bits b1 * 4096
                                       + cont_bits b2 * 64 + cont_bits b3), 4))))
      else (None, 1))"

lemma utf8_next_consumes: "0 < snd (utf8_next (b # bs))"
  by (simp split: list.split)

lemma utf8_next_bounded: "snd (utf8_next bs) \<le> length bs"
  by (cases bs) (simp_all split: list.split)

text \<open>
  The decoding loop. With \<^verbatim>\<open>errors="strict"\<close> an ill-formed sequence raises
  \<^verbatim>\<open>UnicodeDecodeError\<close>; with \<^verbatim>\<open>errors="replace"\<close> it becomes one U+FFFD and decoding
  goes on behind it.
\<close>

definition replacement_character :: nat where
  "replacement_character = 0xFFFD"

function bytes_decode_utf8 :: "errors_mode \<Rightarrow> bytes \<Rightarrow> py_error + pystr" where
  "bytes_decode_utf8 errors [] = Inr []"
| "bytes_decode_utf8 errors (b # bs) =
     (case fst (utf8_next (b # bs)) of
        None \<Rightarrow>
          (case errors of
             Strict \<Rightarrow> Inl UnicodeDecodeError
           | Replace \<Rightarrow>
               (case bytes_decode_utf8 errors (drop (snd (utf8_next (b # bs))) (b # bs)) of
                  Inl e \<Rightarrow> Inl e
                | Inr s \<Rightarrow> Inr (replacement_character # s)))
      | Some cp \<Rightarrow>
          (case bytes_decode_utf8 errors (drop (snd (utf8_next (b # bs))) (b # bs)) of
             Inl e \<Rightarrow> Inl e
           | Inr s \<Rightarrow> Inr (cp # s)))"
  by pat_completeness auto
termination
proof (relation "measure (\<lambda>(errors, bs). length bs)")
  show "wf (measure (\<lambda>(errors, bs). length bs))" by simp
next
  fix errors :: errors_mode and b :: byte and bs :: bytes
  have "0 < snd (utf8_next (b # bs))" by (rule utf8_next_consumes)
  then show "((errors, drop (snd (utf8_next (b # bs))) (b # bs)), (errors, b # bs))
      \<in> measure (\<lambda>(errors, bs). length bs)"
    by simp
next
  fix errors :: errors_mode and b :: byte and bs :: bytes
  have "0 < snd (utf8_next (b # bs))" by (rule utf8_next_consumes)
  then show "((errors, drop (snd (utf8_next (b # bs))) (b # bs)), (errors, b # bs))
      \<in> measure (\<lambda>(errors, bs). length bs)"
    by simp
qed

text \<open>
  \<^verbatim>\<open>str.encode("utf-8")\<close>: a surrogate cannot be encoded. A list element above
  U+10FFFF is no code point of a Python string and is rejected the same way.
\<close>

definition utf8_encode_cp :: "nat \<Rightarrow> py_error + bytes" where
  "utf8_encode_cp cp =
     (if cp < 0x80 then Inr [of_nat cp]
      else if cp < 0x800 then Inr [of_nat (0xC0 + cp div 64), of_nat (0x80 + cp mod 64)]
      else if 0xD800 \<le> cp \<and> cp \<le> 0xDFFF then Inl UnicodeEncodeError
      else if cp < 0x10000 then
        Inr [of_nat (0xE0 + cp div 4096), of_nat (0x80 + cp div 64 mod 64),
             of_nat (0x80 + cp mod 64)]
      else if cp < 0x110000 then
        Inr [of_nat (0xF0 + cp div 262144), of_nat (0x80 + cp div 4096 mod 64),
             of_nat (0x80 + cp div 64 mod 64), of_nat (0x80 + cp mod 64)]
      else Inl UnicodeEncodeError)"

fun str_encode_utf8 :: "pystr \<Rightarrow> py_error + bytes" where
  "str_encode_utf8 [] = Inr []"
| "str_encode_utf8 (cp # s) =
     (case utf8_encode_cp cp of
        Inl e \<Rightarrow> Inl e
      | Inr bs \<Rightarrow>
          (case str_encode_utf8 s of
             Inl e \<Rightarrow> Inl e
           | Inr rest \<Rightarrow> Inr (bs @ rest)))"

section \<open>Safe reading\<close>

text \<open>
  \<^verbatim>\<open>
  def read_text_safe(path: str, max_bytes: int = 2_000_000) -> Optional[str]:
      try:
          size = os.path.getsize(path)
          if size > max_bytes:
              return None
          with open(path, "rb") as f:
              data = f.read()
          if is_binary_bytes(data[:1024]):
              return None
          return data.decode("utf-8", errors="replace")
      except Exception:
          return None
  \<close>
  \<^verbatim>\<open>max_bytes\<close> is a Python integer and may be negative.
  \<open>read_text_safe_try\<close> is the body of the \<^verbatim>\<open>try\<close>; \<open>read_text_safe\<close> adds the handler.
  An exception that the handler does not catch would leave the function as \<open>Inl\<close>.
\<close>

definition default_max_bytes :: int where
  "default_max_bytes = 2000000"

definition read_text_safe_try :: "fsnode \<Rightarrow> path \<Rightarrow> int \<Rightarrow> py_error + pystr option" where
  "read_text_safe_try fs p max_bytes =
     (case os_path_getsize fs p of
        Inl e \<Rightarrow> Inl e
      | Inr fsize \<Rightarrow>
          if int fsize > max_bytes then Inr None
          else
            (case open_rb_read fs p of
               Inl e \<Rightarrow> Inl e
             | Inr data \<Rightarrow>
                 (case is_binary_bytes (take 1024 data) of
                    Inl e \<Rightarrow> Inl e
                  | Inr True \<Rightarrow> Inr None
                  | Inr False \<Rightarrow>
                      (case bytes_decode_utf8 Replace data of
                         Inl e \<Rightarrow> Inl e
                       | Inr s \<Rightarrow> Inr (Some s)))))"

definition read_text_safe :: "fsnode \<Rightarrow> path \<Rightarrow> int \<Rightarrow> py_error + pystr option" where
  "read_text_safe fs p max_bytes =
     (case read_text_safe_try fs p max_bytes of
        Inl e \<Rightarrow> if is_Exception e then Inr None else Inl e
      | Inr r \<Rightarrow> Inr r)"

section \<open>What decoding with replacement means\<close>

text \<open>
  UTF-8 is given by its encoder, \<open>utf8_encode_cp\<close>. The decoder of the previous section
  is measured against it. A byte string \<open>p\<close> is an \<open>encoding_prefix\<close> when some code
  point's encoding begins with it; \<open>code_point_starts bs\<close> says that \<open>bs\<close> begins with
  the whole encoding of a code point.
\<close>

definition encoding_prefix :: "bytes \<Rightarrow> bool" where
  "encoding_prefix p \<longleftrightarrow> (\<exists>cp tail. utf8_encode_cp cp = Inr (p @ tail))"

definition code_point_starts :: "bytes \<Rightarrow> bool" where
  "code_point_starts bs \<longleftrightarrow> (\<exists>cp enc tail. utf8_encode_cp cp = Inr enc \<and> bs = enc @ tail)"

text \<open>
  Where no code point starts, the bytes to be replaced are the maximal subpart of
  the ill-formed sequence, as the Unicode standard defines it: the longest run of
  bytes from there that begins the encoding of some code point, or one byte when
  there is no such run. \<open>maximal_subpart chunk rest\<close> says that \<open>chunk\<close> is that run in
  front of \<open>rest\<close>.
\<close>

definition maximal_subpart :: "bytes \<Rightarrow> bytes \<Rightarrow> bool" where
  "maximal_subpart chunk rest \<longleftrightarrow>
     chunk \<noteq> [] \<and> \<not> code_point_starts (chunk @ rest)
     \<and> (length chunk = 1 \<or> encoding_prefix chunk)
     \<and> (case rest of [] \<Rightarrow> True | b # rest' \<Rightarrow> \<not> encoding_prefix (chunk @ [b]))"

text \<open>
  \<open>utf8_replace_decoding data s\<close>: the string \<open>s\<close> is \<open>data\<close> decoded as UTF-8 with
  every ill-formed sequence replaced. The data is cut into pieces from left to right;
  a piece that encodes a code point gives that code point, a maximal ill-formed
  subpart gives one U+FFFD, and no byte is left out.
\<close>

inductive utf8_replace_decoding :: "bytes \<Rightarrow> pystr \<Rightarrow> bool" where
  nothing: "utf8_replace_decoding [] []"
| code_point:
    "utf8_encode_cp cp = Inr enc \<Longrightarrow> utf8_replace_decoding rest s
       \<Longrightarrow> utf8_replace_decoding (enc @ rest) (cp # s)"
| ill_formed:
    "maximal_subpart chunk rest \<Longrightarrow> utf8_replace_decoding rest s
       \<Longrightarrow> utf8_replace_decoding (chunk @ rest) (replacement_character # s)"

text \<open>
  The decoder and the encoder once more, on natural numbers in place of bytes: the
  same case distinctions, with masks written as remainders. They serve the
  arithmetic of the proofs.
\<close>

definition cont_nat :: "nat \<Rightarrow> bool" where
  "cont_nat x \<longleftrightarrow> 128 \<le> x \<and> x \<le> 191"

fun utf8_next_nat :: "nat list \<Rightarrow> nat option \<times> nat" where
  "utf8_next_nat [] = (None, 0)"
| "utf8_next_nat (x0 # r) =
     (if x0 < 128 then (Some x0, 1)
      else if x0 < 194 then (None, 1)
      else if x0 < 224 then
        (case r of
           [] \<Rightarrow> (None, 1)
         | x1 # r1 \<Rightarrow>
             if \<not> cont_nat x1 then (None, 1)
             else (Some (x0 mod 32 * 64 + x1 mod 64), 2))
      else if x0 < 240 then
        (case r of
           [] \<Rightarrow> (None, 1)
         | x1 # r1 \<Rightarrow>
             if \<not> cont_nat x1 \<or> (if x1 < 160 then x0 = 224 else x0 = 237)
             then (None, 1)
             else
               (case r1 of
                  [] \<Rightarrow> (None, 2)
                | x2 # r2 \<Rightarrow>
                    if \<not> cont_nat x2 then (None, 2)
                    else (Some (x0 mod 16 * 4096 + x1 mod 64 * 64 + x2 mod 64), 3)))
      else if x0 < 245 then
        (case r of
           [] \<Rightarrow> (None, 1)
         | x1 # r1 \<Rightarrow>
             if \<not> cont_nat x1 \<or> (if x1 < 144 then x0 = 240 else x0 = 244)
             then (None, 1)
             else
               (case r1 of
                  [] \<Rightarrow> (None, 2)
                | x2 # r2 \<Rightarrow>
                    if \<not> cont_nat x2 then (None, 2)
                    else
                      (case r2 of
                         [] \<Rightarrow> (None, 3)
                       | x3 # r3 \<Rightarrow>
                           if \<not> cont_nat x3 then (None, 3)
                           else (Some (x0 mod 8 * 262144 + x1 mod 64 * 4096
                                       + x2 mod 64 * 64 + x3 mod 64), 4))))
      else (None, 1))"

definition utf8_encode_nat :: "nat \<Rightarrow> nat list option" where
  "utf8_encode_nat cp =
     (if cp < 0x80 then Some [cp]
      else if cp < 0x800 then Some [0xC0 + cp div 64, 0x80 + cp mod 64]
      else if 0xD800 \<le> cp \<and> cp \<le> 0xDFFF then None
      else if cp < 0x10000 then
        Some [0xE0 + cp div 4096, 0x80 + cp div 64 mod 64, 0x80 + cp mod 64]
      else if cp < 0x110000 then
        Some [0xF0 + cp div 262144, 0x80 + cp div 4096 mod 64, 0x80 + cp div 64 mod 64,
              0x80 + cp mod 64]
      else None)"

section \<open>Path strings\<close>

text \<open>
  The scan root reaches \<^verbatim>\<open>iter_files\<close> as a path string, relative or absolute, which
  \<^verbatim>\<open>os.path.abspath\<close> turns into a normalised absolute path. The POSIX versions of
  \<^verbatim>\<open>os.path\<close> are modelled, on component lists. \<open>str_split_sep\<close> is \<^verbatim>\<open>s.split("/")\<close>.
\<close>

fun str_split_sep :: "string \<Rightarrow> string list" where
  "str_split_sep [] = [[]]"
| "str_split_sep (c # cs) =
     (if c = CHR ''/'' then [] # str_split_sep cs
      else (case str_split_sep cs of
              [] \<Rightarrow> [[c]]
            | w # ws \<Rightarrow> (c # w) # ws))"

definition os_path_isabs :: "string \<Rightarrow> bool" where
  "os_path_isabs s = (case s of [] \<Rightarrow> False | c # cs \<Rightarrow> c = CHR ''/'')"

text \<open>
  \<^verbatim>\<open>
  for comp in comps:
      if comp in ('', '.'):
          continue
      if (comp != '..' or (not initial_slashes and not new_comps) or
           (new_comps and new_comps[-1] == '..')):
          new_comps.append(comp)
      elif new_comps:
          new_comps.pop()
  \<close>
  of \<^verbatim>\<open>posixpath.normpath\<close>, for a path with an initial slash. The normalisation is
  lexical: \<^verbatim>\<open>x/..\<close> is removed whether or not \<^verbatim>\<open>x\<close> exists.
\<close>

definition normpath_step :: "path \<Rightarrow> string \<Rightarrow> path" where
  "normpath_step new_comps cmp =
     (if cmp = '''' \<or> cmp = ''.'' then new_comps
      else if cmp \<noteq> ''..'' \<or> (new_comps \<noteq> [] \<and> last new_comps = ''..'')
        then new_comps @ [cmp]
      else if new_comps \<noteq> [] then butlast new_comps
      else new_comps)"

definition normpath_abs :: "string list \<Rightarrow> path" where
  "normpath_abs comps = foldl normpath_step [] comps"

definition isdir_at :: "fsnode \<Rightarrow> path \<Rightarrow> bool" where
  "isdir_at fs q = (case lookup fs q of Inr (Dir f es) \<Rightarrow> True | _ \<Rightarrow> False)"

text \<open>
  \<^verbatim>\<open>os.path.abspath(p)\<close>: a relative path is joined to the current directory
  \<^verbatim>\<open>os.getcwd()\<close>, then the result is normalised. \<^verbatim>\<open>os.getcwd()\<close> raises
  \<^verbatim>\<open>FileNotFoundError\<close> when the directory the process works in has been removed; it
  is called for a relative path only. \<open>abspath_from c p\<close> is the result once the
  current directory \<open>c\<close> is known.
\<close>

definition os_getcwd :: "fsnode \<Rightarrow> path \<Rightarrow> py_error + path" where
  "os_getcwd fs cwd = (if isdir_at fs cwd then Inr cwd else Inl (OSError FileNotFoundError))"

definition abspath_from :: "path \<Rightarrow> string \<Rightarrow> path" where
  "abspath_from c p = normpath_abs ((if os_path_isabs p then [] else c) @ str_split_sep p)"

definition os_path_abspath :: "fsnode \<Rightarrow> path \<Rightarrow> string \<Rightarrow> py_error + path" where
  "os_path_abspath fs cwd p =
     (if os_path_isabs p then Inr (abspath_from [] p)
      else (case os_getcwd fs cwd of
              Inl e \<Rightarrow> Inl e
            | Inr c \<Rightarrow> Inr (abspath_from c p)))"

definition os_path_join :: "path \<Rightarrow> string \<Rightarrow> path" where
  "os_path_join dirpath name = dirpath @ [name]"

text \<open>
  \<^verbatim>\<open>os.path.relpath(path, start)\<close> normalises both arguments, drops their common
  prefix and climbs out of what is left of \<^verbatim>\<open>start\<close> with \<^verbatim>\<open>..\<close>. It raises
  \<^verbatim>\<open>ValueError\<close> for an empty path string only, which an absolute path never is.
  \<^verbatim>\<open>
  def safe_relpath(path: str, base: str) -> str:
      try:
          return os.path.relpath(path, base)
      except Exception:
          return path
  \<close>
\<close>

fun common_prefix_len :: "path \<Rightarrow> path \<Rightarrow> nat" where
  "common_prefix_len (x # xs) (y # ys) = (if x = y then Suc (common_prefix_len xs ys) else 0)"
| "common_prefix_len xs ys = 0"

definition os_path_relpath :: "path \<Rightarrow> path \<Rightarrow> py_error + path" where
  "os_path_relpath p start =
     (let start_list = normpath_abs start;
          path_list = normpath_abs p;
          i = common_prefix_len start_list path_list;
          rel_list = replicate (length start_list - i) ''..'' @ drop i path_list
      in if rel_list = [] then Inr [''.''] else Inr rel_list)"

definition safe_relpath :: "path \<Rightarrow> path \<Rightarrow> path" where
  "safe_relpath p base =
     (case os_path_relpath p base of
        Inl e \<Rightarrow> p
      | Inr rel \<Rightarrow> rel)"

text \<open>
  \<^verbatim>\<open>os.path.splitext\<close>: the extension starts at the last dot of the name, unless only
  dots precede it.
  \<^verbatim>\<open>
  sepIndex = p.rfind(sep)
  dotIndex = p.rfind(extsep)
  if dotIndex > sepIndex:
      filenameIndex = sepIndex + 1
      while filenameIndex < dotIndex:
          if p[filenameIndex:filenameIndex+1] != extsep:
              return p[:dotIndex], p[dotIndex:]
          filenameIndex += 1
  return p, p[:0]
  \<close>
\<close>

fun str_rfind_from :: "string \<Rightarrow> char \<Rightarrow> int \<Rightarrow> int \<Rightarrow> int" where
  "str_rfind_from [] c i found = found"
| "str_rfind_from (x # xs) c i found = str_rfind_from xs c (i + 1) (if x = c then i else found)"

definition str_rfind :: "string \<Rightarrow> char \<Rightarrow> int" where
  "str_rfind s c = str_rfind_from s c 0 (- 1)"

definition os_path_splitext :: "string \<Rightarrow> string \<times> string" where
  "os_path_splitext p =
     (let sepIndex = str_rfind p (CHR ''/'');
          dotIndex = str_rfind p (CHR ''.'')
      in if dotIndex > sepIndex
            \<and> list_ex (\<lambda>k. p ! k \<noteq> CHR ''.'') [nat (sepIndex + 1) ..< nat dotIndex]
         then (take (nat dotIndex) p, drop (nat dotIndex) p)
         else (p, []))"

text \<open>
  \<^verbatim>\<open>str.lower()\<close> follows the case mappings of the Unicode character database, which
  is not part of the repository: the traversal takes the lowering function as its
  argument \<open>lower\<close>, and what is proved of it holds for every such function, Python's
  among them. \<open>ascii_lower\<close> is that function on names made of ASCII characters; the
  examples use it.
\<close>

definition ascii_lower_char :: "char \<Rightarrow> char" where
  "ascii_lower_char c =
     (let n = (of_char c :: nat) in if 65 \<le> n \<and> n \<le> 90 then char_of (n + 32) else c)"

definition ascii_lower :: "string \<Rightarrow> string" where
  "ascii_lower s = map ascii_lower_char s"

definition str_startswith :: "string \<Rightarrow> string \<Rightarrow> bool" where
  "str_startswith s prefix \<longleftrightarrow> take (length prefix) s = prefix"

section \<open>Directory traversal\<close>

text \<open>
  \<^verbatim>\<open>os.walk(top)\<close>, top-down, with \<^verbatim>\<open>onerror=None\<close> and \<^verbatim>\<open>followlinks=False\<close>. For a
  directory it lists the entries, yields \<^verbatim>\<open>(top, dirs, nondirs)\<close>, and after the consumer
  has had the triple it walks each name that is then in \<^verbatim>\<open>dirs\<close>, by listing
  \<^verbatim>\<open>join(top, name)\<close>. A listing that fails (missing path, not a directory, permission
  denied) is skipped silently. The consumer may change \<^verbatim>\<open>dirs\<close> in place before the
  generator resumes; the argument \<open>upd\<close> is that change.
\<close>

definition list_dirs :: "(string \<times> fsnode) list \<Rightarrow> string list" where
  "list_dirs es = map fst (filter (\<lambda>e. is_dir (snd e)) es)"

definition list_nondirs :: "(string \<times> fsnode) list \<Rightarrow> string list" where
  "list_nondirs es = map fst (filter (\<lambda>e. \<not> is_dir (snd e)) es)"

function walk_node ::
  "(string list \<Rightarrow> string list) \<Rightarrow> path \<Rightarrow> fsnode \<Rightarrow> (path \<times> string list \<times> string list) list"
where
  "walk_node upd tp (File f c) = []"
| "walk_node upd tp (Dir (Some e) es) = []"
| "walk_node upd tp (Dir None es) =
     (let dirs = upd (list_dirs es)
      in (tp, dirs, list_nondirs es) #
         concat (map (\<lambda>d. case map_of es d of
                              None \<Rightarrow> []
                            | Some child \<Rightarrow> walk_node upd (os_path_join tp d) child) dirs))"
  by pat_completeness auto
termination
  by (relation "measure (\<lambda>(upd, tp, node). size node)") (auto dest: size_map_of)

text \<open>
  \<^verbatim>\<open>os.walk\<close> catches \<^verbatim>\<open>OSError\<close> only. \<^verbatim>\<open>os.scandir\<close> raises \<^verbatim>\<open>ValueError\<close> for a path
  with an embedded null character, and that leaves \<^verbatim>\<open>os.walk\<close>. Names that come out of
  a listing hold no null character, so this can happen at the top only.
\<close>

definition os_walk ::
  "fsnode \<Rightarrow> (string list \<Rightarrow> string list) \<Rightarrow> path
     \<Rightarrow> py_error + (path \<times> string list \<times> string list) list"
where
  "os_walk fs upd tp =
     (if has_nul tp then Inl ValueError
      else (case lookup fs tp of
              Inl e \<Rightarrow> Inr []
            | Inr node \<Rightarrow> Inr (walk_node upd tp node)))"

text \<open>
  \<^verbatim>\<open>
  def iter_files(base: str, include_exts: Optional[Iterable[str]] = None):
      base = os.path.abspath(base)
      for root, dirs, files in os.walk(base):
          # exclude dirs
          dirs[:] = [d for d in dirs if d not in DEFAULT_EXCLUDE_DIRS and not d.startswith('.')]
          for name in files:
              full = os.path.join(root, name)
              rel = safe_relpath(full, base)
              if include_exts is not None:
                  ext = os.path.splitext(name)[1].lower()
                  if ext not in include_exts:
                      continue
              yield full, rel
  \<close>
  The generator is modelled by the list of the pairs it yields, in order, or by the
  exception that leaves it; both exceptions of the model are raised before the first
  pair is yielded. The loop variable \<^verbatim>\<open>root\<close> is \<open>dirpath\<close> here.
  \<open>include_exts\<close> is \<open>None\<close> or a set of extensions.
\<close>

definition DEFAULT_EXCLUDE_DIRS :: "string set" where
  "DEFAULT_EXCLUDE_DIRS =
     {''.git'', ''node_modules'', ''.venv'', ''venv'', ''dist'', ''build'', ''__pycache__'',
      ''.idea'', ''.vscode'', ''.pytest_cache'', ''.mypy_cache''}"

definition prune_dirs :: "string list \<Rightarrow> string list" where
  "prune_dirs dirs =
     filter (\<lambda>d. d \<notin> DEFAULT_EXCLUDE_DIRS \<and> \<not> str_startswith d ''.'') dirs"

definition iter_files_in ::
  "(string \<Rightarrow> string) \<Rightarrow> path \<Rightarrow> string set option \<Rightarrow> path \<Rightarrow> string list
     \<Rightarrow> (path \<times> path) list" where
  "iter_files_in lower base include_exts dirpath files =
     concat (map (\<lambda>name.
        let full = os_path_join dirpath name;
            rel = safe_relpath full base
        in (case include_exts of
              None \<Rightarrow> [(full, rel)]
            | Some exts \<Rightarrow>
                if lower (snd (os_path_splitext name)) \<notin> exts then []
                else [(full, rel)])) files)"

definition iter_files ::
  "(string \<Rightarrow> string) \<Rightarrow> fsnode \<Rightarrow> path \<Rightarrow> string \<Rightarrow> string set option
     \<Rightarrow> py_error + (path \<times> path) list" where
  "iter_files lower fs cwd base include_exts =
     (case os_path_abspath fs cwd base of
        Inl e \<Rightarrow> Inl e
      | Inr base' \<Rightarrow>
          (case os_walk fs prune_dirs base' of
             Inl e \<Rightarrow> Inl e
           | Inr triples \<Rightarrow>
               Inr (concat (map (\<lambda>(dirpath, dirs, files).
                                   iter_files_in lower base' include_exts dirpath files)
                                triples))))"



text \<open>
  A well-formed tree: entry names are file names (not empty, not \<^verbatim>\<open>.\<close> or \<^verbatim>\<open>..\<close>, no
  slash, no null character) and a directory has no two entries of the same name.
\<close>

definition valid_name :: "string \<Rightarrow> bool" where
  "valid_name n \<longleftrightarrow>
     n \<noteq> '''' \<and> n \<noteq> ''.'' \<and> n \<noteq> ''..'' \<and> CHR ''/'' \<notin> set n \<and> CHR 0x00 \<notin> set n"

fun wf_fs :: "fsnode \<Rightarrow> bool" where
  "wf_fs (File f c) = True"
| "wf_fs (Dir f es) =
     (distinct (map fst es) \<and> list_all (\<lambda>e. valid_name (fst e) \<and> wf_fs (snd e)) es)"

text \<open>
  The same tree listed in another order: \<open>reorder \<pi> t\<close> applies the rearrangement \<open>\<pi>\<close>
  to the entry list of every directory of \<open>t\<close>.
\<close>

fun reorder :: "((string \<times> fsnode) list \<Rightarrow> (string \<times> fsnode) list) \<Rightarrow> fsnode \<Rightarrow> fsnode" where
  "reorder \<pi> (File f c) = File f c"
| "reorder \<pi> (Dir f es) = Dir f (\<pi> (map (\<lambda>e. (fst e, reorder \<pi> (snd e))) es))"

text \<open>
  For stating what the traversal reaches: \<open>keep_dir\<close> is the test of the list
  comprehension in \<^verbatim>\<open>iter_files\<close>, and \<open>visits node ds\<close> is the entry list of the
  directory found by going down from \<open>node\<close> along the names \<open>ds\<close>, provided every
  directory on the way can be listed and every name of \<open>ds\<close> is a directory that the
  pruning keeps.
\<close>

definition keep_dir :: "string \<Rightarrow> bool" where
  "keep_dir d \<longleftrightarrow> d \<notin> DEFAULT_EXCLUDE_DIRS \<and> \<not> str_startswith d ''.''"

function visits :: "fsnode \<Rightarrow> path \<Rightarrow> (string \<times> fsnode) list option" where
  "visits (File f c) ds = None"
| "visits (Dir (Some e) es) ds = None"
| "visits (Dir None es) [] = Some es"
| "visits (Dir None es) (d # ds) =
     (if d \<in> set (prune_dirs (list_dirs es))
      then (case map_of es d of None \<Rightarrow> None | Some child \<Rightarrow> visits child ds)
      else None)"
  by pat_completeness auto
termination
  by (relation "measure (\<lambda>(node, ds). length ds)") auto

text \<open>
  \<open>plain\<close> components are those that normalisation leaves alone. \<open>qualifies\<close> is the
  extension test of \<^verbatim>\<open>iter_files\<close>: a file qualifies when no extension set is given,
  or when its lower-cased extension is in the set.
\<close>

definition plain :: "string \<Rightarrow> bool" where
  "plain c \<longleftrightarrow> c \<noteq> '''' \<and> c \<noteq> ''.'' \<and> c \<noteq> ''..''"

definition qualifies :: "(string \<Rightarrow> string) \<Rightarrow> string set option \<Rightarrow> string \<Rightarrow> bool" where
  "qualifies lower include_exts name =
     (case include_exts of
        None \<Rightarrow> True
      | Some exts \<Rightarrow> lower (snd (os_path_splitext name)) \<in> exts)"

text \<open>
  What a generator has yielded when it stops: its pairs, or nothing when it stopped
  at once with an exception.
\<close>

definition yielded :: "py_error + 'a list \<Rightarrow> 'a list" where
  "yielded r = (case r of Inl e \<Rightarrow> [] | Inr xs \<Rightarrow> xs)"

text \<open>
  The extension of a file name, said without \<^verbatim>\<open>os.path.splitext\<close>: what follows the
  last dot of the name, with that dot, when some character other than a dot comes
  before it; empty otherwise.
\<close>

definition file_extension :: "string \<Rightarrow> string" where
  "file_extension name =
     (let after = rev (takeWhile (\<lambda>c. c \<noteq> CHR ''.'') (rev name));
          stem = take (length name - Suc (length after)) name
      in if CHR ''.'' \<in> set name \<and> list_ex (\<lambda>c. c \<noteq> CHR ''.'') stem
         then CHR ''.'' # after else [])"

section \<open>Writing reports\<close>

text \<open>
  \<open>store fs p new\<close> puts the node \<open>new\<close> at the path \<open>p\<close>: it replaces the node that is
  there, or adds an entry to the parent directory, which must exist.
\<close>

function store :: "fsnode \<Rightarrow> path \<Rightarrow> fsnode \<Rightarrow> fsnode option" where
  "store node [] new = Some new"
| "store (File f c) (n # ns) new = None"
| "store (Dir f es) (n # ns) new =
     (case map_of es n of
        None \<Rightarrow> if ns = [] then Some (Dir f (AList.update n new es)) else None
      | Some child \<Rightarrow>
          (case store child ns new of
             None \<Rightarrow> None
           | Some child' \<Rightarrow> Some (Dir f (AList.update n child' es))))"
  by pat_completeness auto
termination
  by (relation "measure (\<lambda>(node, p, new). length p)") auto

text \<open>
  \<^verbatim>\<open>os.mkdir(path)\<close> and \<^verbatim>\<open>os.makedirs(name, exist_ok=True)\<close>:
  \<^verbatim>\<open>
  head, tail = path.split(name)
  if head and tail and not path.exists(head):
      try:
          makedirs(head, exist_ok=exist_ok)
      except FileExistsError:
          pass
  try:
      mkdir(name, mode)
  except OSError:
      if not exist_ok or not path.isdir(name):
          raise
  \<close>
\<close>

definition os_path_exists :: "fsnode \<Rightarrow> path \<Rightarrow> bool" where
  "os_path_exists fs p = (case lookup fs p of Inl e \<Rightarrow> False | Inr node \<Rightarrow> True)"

definition os_mkdir :: "fsnode \<Rightarrow> path \<Rightarrow> os_error + fsnode" where
  "os_mkdir fs p =
     (case lookup fs p of
        Inr node \<Rightarrow> Inl FileExistsError
      | Inl NotADirectoryError \<Rightarrow> Inl NotADirectoryError
      | Inl e \<Rightarrow>
          (case lookup fs (butlast p) of
             Inl e' \<Rightarrow> Inl e'
           | Inr (File f c) \<Rightarrow> Inl NotADirectoryError
           | Inr (Dir f es) \<Rightarrow>
               (case store fs p (Dir None []) of
                  None \<Rightarrow> Inl FileNotFoundError
                | Some fs' \<Rightarrow> Inr fs')))"

function os_makedirs :: "fsnode \<Rightarrow> path \<Rightarrow> os_error + fsnode" where
  "os_makedirs fs p =
     (case (if p \<noteq> [] \<and> \<not> os_path_exists fs (butlast p)
            then (case os_makedirs fs (butlast p) of
                    Inl e \<Rightarrow> if e = FileExistsError then Inr fs else Inl e
                  | Inr fs' \<Rightarrow> Inr fs')
            else Inr fs) of
        Inl e \<Rightarrow> Inl e
      | Inr fs1 \<Rightarrow>
          (case os_mkdir fs1 p of
             Inr fs2 \<Rightarrow> Inr fs2
           | Inl e \<Rightarrow> if isdir_at fs1 p then Inr fs1 else Inl e))"
  by pat_completeness auto
termination
  by (relation "measure (\<lambda>(fs, p). length p)") auto

text \<open>
  \<^verbatim>\<open>
  def now_stamp() -> str:
      return _dt.datetime.now().strftime("%Y-%m-%d_%H%M%S")
  \<close>
  The clock reading is an argument. \<^verbatim>\<open>%m\<close>, \<^verbatim>\<open>%d\<close>, \<^verbatim>\<open>%H\<close>, \<^verbatim>\<open>%M\<close> and \<^verbatim>\<open>%S\<close> print two
  digits; \<^verbatim>\<open>%Y\<close> prints the year, four digits for the years 1000 to 9999.
\<close>

record datetime =
  year :: nat
  month :: nat
  day :: nat
  hour :: nat
  minute :: nat
  second :: nat

definition digit_char :: "nat \<Rightarrow> char" where
  "digit_char n = char_of (48 + n mod 10)"

definition two_digits :: "nat \<Rightarrow> string" where
  "two_digits n = [digit_char (n div 10), digit_char n]"

definition four_digits :: "nat \<Rightarrow> string" where
  "four_digits n =
     [digit_char (n div 1000), digit_char (n div 100), digit_char (n div 10), digit_char n]"

definition now_stamp :: "datetime \<Rightarrow> string" where
  "now_stamp now =
     four_digits (year now) @ ''-'' @ two_digits (month now) @ ''-'' @ two_digits (day now)
       @ ''_'' @ two_digits (hour now) @ two_digits (minute now) @ two_digits (second now)"

text \<open>
  \<^verbatim>\<open>
  def ensure_out_dir() -> str:
      out_dir = os.path.join(os.getcwd(), "context_out")
      os.makedirs(out_dir, exist_ok=True)
      return out_dir

  def report_path(name: str, ext: str = "md") -> str:
      out_dir = ensure_out_dir()
      fname = f"{name}_{now_stamp()}.{ext}"
      return os.path.join(out_dir, fname)
  \<close>
  Both return the path together with the filesystem as \<^verbatim>\<open>makedirs\<close> has left it.
  \<open>os_path_join_str a b\<close> is \<^verbatim>\<open>os.path.join(a, b)\<close> for a path string \<open>b\<close>: an absolute
  \<open>b\<close> replaces \<open>a\<close>, otherwise the components of \<open>b\<close> follow those of \<open>a\<close>.
\<close>

definition os_path_join_str :: "path \<Rightarrow> string \<Rightarrow> path" where
  "os_path_join_str a b =
     (if os_path_isabs b then tl (str_split_sep b) else a @ str_split_sep b)"

definition ensure_out_dir :: "fsnode \<Rightarrow> path \<Rightarrow> py_error + fsnode \<times> path" where
  "ensure_out_dir fs cwd =
     (case os_getcwd fs cwd of
        Inl e \<Rightarrow> Inl e
      | Inr c \<Rightarrow>
          (let out_dir = os_path_join_str c ''context_out''
           in case os_makedirs fs out_dir of
                Inl e \<Rightarrow> Inl (OSError e)
              | Inr fs' \<Rightarrow> Inr (fs', out_dir)))"

definition report_path ::
  "fsnode \<Rightarrow> path \<Rightarrow> datetime \<Rightarrow> string \<Rightarrow> string \<Rightarrow> py_error + fsnode \<times> path" where
  "report_path fs cwd now name ext =
     (case ensure_out_dir fs cwd of
        Inl e \<Rightarrow> Inl e
      | Inr (fs', out_dir) \<Rightarrow>
          (let fname = name @ ''_'' @ now_stamp now @ ''.'' @ ext
           in Inr (fs', os_path_join_str out_dir fname)))"

text \<open>
  \<^verbatim>\<open>
  def write_text(path: str, content: str) -> None:
      with open(path, "w", encoding="utf-8", newline="\n") as f:
          f.write(content)
  \<close>
  Opening for writing creates the file or empties it. On writing, a text file
  translates every \<^verbatim>\<open>"\n"\<close> of the content as its \<^verbatim>\<open>newline\<close> argument says (\<^verbatim>\<open>None\<close>
  stands for the separator of the platform, \<^verbatim>\<open>""\<close> and \<^verbatim>\<open>"\n"\<close> for no translation) and
  encodes the result, which fails on a surrogate. \<open>write_text\<close> returns the filesystem
  it leaves and the exception it raised, if any.
\<close>

datatype newline_arg = Newline_None | Newline_Empty | Newline_LF | Newline_CR | Newline_CRLF

definition os_linesep :: pystr where
  "os_linesep = [10]"

definition text_write_translate :: "newline_arg \<Rightarrow> pystr \<Rightarrow> pystr" where
  "text_write_translate newline s =
     (case newline of
        Newline_Empty \<Rightarrow> s
      | Newline_LF \<Rightarrow> s
      | Newline_None \<Rightarrow> concat (map (\<lambda>c. if c = 10 then os_linesep else [c]) s)
      | Newline_CR \<Rightarrow> concat (map (\<lambda>c. if c = 10 then [13] else [c]) s)
      | Newline_CRLF \<Rightarrow> concat (map (\<lambda>c. if c = 10 then [13, 10] else [c]) s))"

definition open_w :: "fsnode \<Rightarrow> path \<Rightarrow> py_error + fsnode" where
  "open_w fs p =
     (if has_nul p then Inl ValueError
      else
        (case lookup fs p of
           Inr (Dir f es) \<Rightarrow> Inl (OSError IsADirectoryError)
         | Inr (File (Some e) c) \<Rightarrow> Inl (OSError e)
         | Inr (File None c) \<Rightarrow>
             (case store fs p (File None []) of
                None \<Rightarrow> Inl (OSError FileNotFoundError)
              | Some fs' \<Rightarrow> Inr fs')
         | Inl e \<Rightarrow>
             if e = FileNotFoundError \<and> isdir_at fs (butlast p)
             then (case store fs p (File None []) of
                     None \<Rightarrow> Inl (OSError FileNotFoundError)
                   | Some fs' \<Rightarrow> Inr fs')
             else Inl (OSError e)))"

definition write_text :: "fsnode \<Rightarrow> path \<Rightarrow> pystr \<Rightarrow> fsnode \<times> py_error option" where
  "write_text fs p content =
     (case open_w fs p of
        Inl e \<Rightarrow> (fs, Some e)
      | Inr fs1 \<Rightarrow>
          (case str_encode_utf8 (text_write_translate Newline_LF content) of
             Inl e \<Rightarrow> (fs1, Some e)
           | Inr data \<Rightarrow>
               (case store fs1 p (File None data) of
                  None \<Rightarrow> (fs1, Some (OSError IOError))
                | Some fs2 \<Rightarrow> (fs2, None))))"

section \<open>An example tree\<close>

text \<open>
  The scenario of the specification: a project directory holding the text file
  \<^verbatim>\<open>a.py\<close>, the binary file \<^verbatim>\<open>b.bin\<close> with bytes 00 01 02, and the excluded directory
  \<^verbatim>\<open>.git\<close> with a file in it. Further entries exercise the other cases: an empty
  file, a file that is not valid UTF-8, a file that cannot be opened, regular files that carry the names of excluded
  directories, and an excluded directory with an ordinary directory below it.
\<close>

definition example_fs :: fsnode where
  "example_fs =
     Dir None
       [(''proj'',
         Dir None
           [(''a.py'', File None (map of_char ''print(1)'')),
            (''b.bin'', File None [0, 1, 2]),
            (''.git'', Dir None [(''c.py'', File None (map of_char ''x = 1''))]),
            (''empty.txt'', File None []),
            (''latin1.txt'', File None [0x63, 0x61, 0x66, 0xE9]),
            (''locked.txt'', File (Some PermissionError) (map of_char ''secret'')),
            (''.gitignore'', File None (map of_char ''dist'')),
            (''src'',
             Dir None
               [(''node_modules'', File None (map of_char ''oops'')),
                (''Main.PY'', File None (map of_char ''pass'')),
                (''build'', Dir None [(''lib'', Dir None [(''d.py'', File None [])])])])])]"

section \<open>Properties of the binary detector\<close>

lemma byte_in_upper_range: "(b :: byte) \<in> of_nat ` {0x20 ..< 0x100} \<longleftrightarrow> 0x20 \<le> b"
proof
  assume "b \<in> of_nat ` {0x20 ..< 0x100}"
  then obtain n :: nat where n: "b = of_nat n" "32 \<le> n" "n < 256" by auto
  then have "unat b = n" by (simp add: unat_of_nat)
  with n show "0x20 \<le> b" by (simp add: word_le_nat_alt)
next
  assume "0x20 \<le> b"
  then have "32 \<le> unat b" by (simp add: word_le_nat_alt)
  moreover have "unat b < 256" using unsigned_less [of b, where ?'a = nat] by simp
  moreover have "b = of_nat (unat b)" by simp
  ultimately show "b \<in> of_nat ` {0x20 ..< 0x100}"
    by (metis atLeastLessThan_iff imageI)
qed

lemma set_text_characters:
  "set text_characters = {7, 8, 9, 10, 12, 13, 27} \<union> of_nat ` {0x20 ..< 0x100}"
  unfolding text_characters_def set_append set_map set_upt by simp

lemma in_text_characters: "b \<in> set text_characters \<longleftrightarrow> \<not> outside_text_set b"
proof -
  have "\<not> (0xFF < b)"
    using unsigned_less [of b, where ?'a = nat] by (simp add: word_less_nat_alt)
  then show ?thesis
    unfolding set_text_characters outside_text_set_def Un_iff byte_in_upper_range
    by (auto simp: not_less)
qed

lemma nontext_filter:
  "bytes_translate_delete chunk text_characters = filter outside_text_set chunk"
  by (simp add: bytes_translate_delete_def in_text_characters)

lemma is_binary_bytes_eq:
  "is_binary_bytes chunk = Inr (0 \<in> set chunk \<or> 3 / 10 < fraction_outside chunk)"
proof (cases chunk)
  case Nil
  then show ?thesis
    by (simp add: is_binary_bytes_def py_truediv_def fraction_outside_def
        bytes_translate_delete_def)
next
  case (Cons b bs)
  then have "max 1 (length chunk) = length chunk" by simp
  then show ?thesis
    using Cons
    by (simp add: is_binary_bytes_def py_truediv_def fraction_outside_def
        nontext_filter Let_def del: list.simps)
qed

text \<open>
  C2. \<open>is_binary_bytes\<close> never raises, and it answers true exactly when the sample
  contains a null byte or more than 0.30 of its bytes lie outside
  \<open>{7,8,9,10,12,13,27} \<union> [0x20,0xFF]\<close>; the empty sample is not binary.
\<close>

theorem is_binary_bytes_spec:
  "is_binary_bytes chunk = Inr (0 \<in> set chunk \<or> 3 / 10 < fraction_outside chunk)
   \<and> is_binary_bytes [] = Inr False"
  by (simp add: is_binary_bytes_eq fraction_outside_def)

section \<open>Properties of the filesystem model\<close>

lemma lookup_append:
  "lookup node (p @ q) = (case lookup node p of Inl e \<Rightarrow> Inl e | Inr n \<Rightarrow> lookup n q)"
  by (induction node p rule: lookup.induct) (auto split: option.splits)

lemma wf_map_of: "wf_fs (Dir f es) \<Longrightarrow> map_of es d = Some c \<Longrightarrow> valid_name d \<and> wf_fs c"
  by (auto simp: list_all_iff dest!: map_of_SomeD)

lemma lookup_wf: "wf_fs node \<Longrightarrow> lookup node p = Inr n \<Longrightarrow> wf_fs n"
proof (induction node p rule: lookup.induct)
  case (3 f es n ns)
  then show ?case
    using wf_map_of [of f es n]
    by (auto split: option.splits simp del: wf_fs.simps)
qed simp_all

lemma lookup_valid: "wf_fs node \<Longrightarrow> lookup node p = Inr n \<Longrightarrow> list_all valid_name p"
proof (induction node p rule: lookup.induct)
  case (3 f es n ns)
  then show ?case
    using wf_map_of [of f es n]
    by (auto split: option.splits simp del: wf_fs.simps)
qed simp_all

lemma valid_no_nul: "list_all valid_name p \<Longrightarrow> \<not> has_nul p"
  by (auto simp: has_nul_def list_all_iff list_ex_iff valid_name_def)

lemma lookup_no_nul: "wf_fs node \<Longrightarrow> lookup node p = Inr n \<Longrightarrow> \<not> has_nul p"
  by (blast dest: lookup_valid valid_no_nul)

lemma wf_example: "wf_fs example_fs"
  by (simp add: example_fs_def valid_name_def)

section \<open>Properties of the UTF-8 decoder\<close>

lemma mask_mod:
  "unat ((b::byte) AND 0x3F) = unat b mod 64"
  "unat ((b::byte) AND 0x1F) = unat b mod 32"
  "unat ((b::byte) AND 0x0F) = unat b mod 16"
  "unat ((b::byte) AND 0x07) = unat b mod 8"
proof -
  have "unat (b AND mask n) = unat b mod 2 ^ n" for n
  proof -
    have "unat (b AND mask n) = unat (take_bit n b)" by (simp add: take_bit_eq_mask)
    also have "\<dots> = take_bit n (unat b)" by (simp add: unsigned_take_bit_eq)
    also have "\<dots> = unat b mod 2 ^ n" by (rule take_bit_eq_mod)
    finally show ?thesis .
  qed
  from this [of 6] this [of 5] this [of 4] this [of 3]
  show "unat (b AND 0x3F) = unat b mod 64" "unat (b AND 0x1F) = unat b mod 32"
    "unat (b AND 0x0F) = unat b mod 16" "unat (b AND 0x07) = unat b mod 8"
    by (simp_all add: mask_eq_exp_minus_1)
qed

lemma byte_eq_iff: "(b :: byte) = c \<longleftrightarrow> unat b = unat c"
  by (simp add: word_unat_eq_iff)

lemma utf8_next_nat: "utf8_next bs = utf8_next_nat (map unat bs)"
proof (cases bs)
  case Nil
  then show ?thesis by simp
next
  case (Cons b0 r)
  have c: "is_continuation b \<longleftrightarrow> cont_nat (unat b)" for b
    by (simp add: is_continuation_def cont_nat_def word_le_nat_alt)
  show ?thesis
    unfolding Cons
    by (simp add: c cont_bits_def mask_mod word_less_nat_alt byte_eq_iff
        split: list.split)
qed


lemma utf8_encode_nat_bytes: "utf8_encode_nat cp = Some ns \<Longrightarrow> x \<in> set ns \<Longrightarrow> x < 256"
  by (auto simp: utf8_encode_nat_def split: if_splits)

lemma utf8_encode_cp_nat:
  "utf8_encode_cp cp =
     (case utf8_encode_nat cp of
        None \<Rightarrow> Inl UnicodeEncodeError
      | Some ns \<Rightarrow> Inr (map of_nat ns))"
  by (simp add: utf8_encode_cp_def utf8_encode_nat_def)

lemma split64:
  obtains q r :: nat where "n = q * 64 + r" "r < 64" "n div 64 = q" "n mod 64 = r"
  by (metis div_mult_mod_eq mod_less_divisor zero_less_numeral)

lemma add_mod_multiple: "x < m \<Longrightarrow> (m * k + x) mod m = (x::nat)"
  by simp

lemma cont_low: "r < 64 \<Longrightarrow> cont_nat (128 + r) \<and> (128 + r) mod 64 = r"
  using add_mod_multiple [of r 64 2] by (simp add: cont_nat_def)

lemma lead_mod:
  "q < 32 \<Longrightarrow> (192 + q) mod 32 = (q::nat)"
  "q < 16 \<Longrightarrow> (224 + q) mod 16 = (q::nat)"
  "q < 8 \<Longrightarrow> (240 + q) mod 8 = (q::nat)"
  using add_mod_multiple [of q 32 6] add_mod_multiple [of q 16 14] add_mod_multiple [of q 8 30]
  by simp_all

lemma next_of_encoded_nat:
  assumes "utf8_encode_nat cp = Some ns"
  shows "utf8_next_nat (ns @ rest) = (Some cp, length ns)"
proof -
  obtain q r where q: "cp = q * 64 + r" and rb: "r < 64"
    and dq: "cp div 64 = q" and mq: "cp mod 64 = r"
    by (rule split64)
  obtain q1 r1 where q1: "q = q1 * 64 + r1" and r1b: "r1 < 64"
    and dq1: "q div 64 = q1" and mq1: "q mod 64 = r1"
    by (rule split64)
  obtain q2 r2 where q2: "q1 = q2 * 64 + r2" and r2b: "r2 < 64"
    and dq2: "q1 div 64 = q2" and mq2: "q1 mod 64 = r2"
    by (rule split64)
  have d4096: "cp div 4096 = q1"
    using div_mult2_eq [of cp 64 64] dq dq1 by simp
  have d262144: "cp div 262144 = q2"
    using div_mult2_eq [of cp 4096 64] d4096 dq2 by simp
  consider (one) "cp < 0x80" | (two) "0x80 \<le> cp" "cp < 0x800"
    | (three) "0x800 \<le> cp" "cp < 0x10000" "\<not> (0xD800 \<le> cp \<and> cp \<le> 0xDFFF)"
    | (four) "0x10000 \<le> cp" "cp < 0x110000"
    using assms by (auto simp: utf8_encode_nat_def split: if_splits)
  then show ?thesis
  proof cases
    case one
    with assms show ?thesis by (auto simp: utf8_encode_nat_def)
  next
    case two
    with assms have ns: "ns = [192 + q, 128 + r]"
      by (auto simp: utf8_encode_nat_def dq mq)
    have b: "2 \<le> q" "q < 32" using two q rb by linarith+
    have v: "q * 64 + r = cp" using q by simp
    show ?thesis
      unfolding ns using b rb v by (simp add: cont_low lead_mod)
  next
    case three
    with assms have ns: "ns = [224 + q1, 128 + r1, 128 + r]"
      by (auto simp: utf8_encode_nat_def dq mq d4096 mq1)
    have cpv: "q1 * 4096 + r1 * 64 + r = cp" using q q1 by simp
    have a: "q1 < 16" using three cpv by linarith
    have b: "q1 = 0 \<Longrightarrow> 32 \<le> r1" using three cpv rb by linarith
    have c: "q1 = 13 \<Longrightarrow> r1 < 32" using three cpv rb r1b by linarith
    have nb: "\<not> (if 128 + r1 < 160 then 224 + q1 = 224 else 224 + q1 = 237)"
      using b c by (cases "q1 = 0"; cases "q1 = 13") auto
    show ?thesis
      unfolding ns using a rb r1b cpv nb by (simp add: cont_low lead_mod)
  next
    case four
    with assms have ns: "ns = [240 + q2, 128 + r2, 128 + r1, 128 + r]"
      by (auto simp: utf8_encode_nat_def dq mq d4096 d262144 mq1 mq2)
    have cpv: "q2 * 262144 + r2 * 4096 + r1 * 64 + r = cp" using q q1 q2 by simp
    have a: "q2 < 5" using four cpv by linarith
    have b: "q2 = 0 \<Longrightarrow> 16 \<le> r2" using four cpv rb r1b by linarith
    have c: "q2 = 4 \<Longrightarrow> r2 < 16" using four cpv rb r1b r2b by linarith
    have nb: "\<not> (if 128 + r2 < 144 then 240 + q2 = 240 else 240 + q2 = 244)"
      using b c by (cases "q2 = 0"; cases "q2 = 4") auto
    from a have a8: "q2 < 8" by simp
    show ?thesis
      unfolding ns using a a8 rb r1b r2b cpv nb by (simp add: cont_low lead_mod)
  qed
qed


lemma compose64: "c < 64 \<Longrightarrow> (a * 64 + c) div 64 = (a::nat) \<and> (a * 64 + c) mod 64 = c"
  by simp

lemma cont_natD: "cont_nat x \<Longrightarrow> \<exists>c < 64. x = 128 + c"
  by (auto simp: cont_nat_def intro!: exI [of _ "x - 128"])

lemma encoded_of_next_nat:
  assumes "utf8_next_nat ns = (Some cp, n)"
  shows "utf8_encode_nat cp = Some (take n ns)"
proof (cases ns)
  case Nil
  with assms show ?thesis by simp
next
  case (Cons x0 r)
  consider (one) "x0 < 128" | (two) "194 \<le> x0" "x0 < 224" | (three) "224 \<le> x0" "x0 < 240"
    | (four) "240 \<le> x0" "x0 < 245"
    using assms Cons by (auto split: if_splits) 
  then show ?thesis
  proof cases
    case one
    with assms Cons show ?thesis by (auto simp: utf8_encode_nat_def)
  next
    case two
    with assms Cons obtain x1 rr where r: "r = x1 # rr" and c1: "cont_nat x1"
      and cp: "cp = x0 mod 32 * 64 + x1 mod 64" and n: "n = 2"
      by (auto split: list.splits if_splits)
    obtain a where a: "x0 = 192 + a" "2 \<le> a" "a < 32"
      using two by (auto intro: that [of "x0 - 192"])
    obtain c where c: "x1 = 128 + c" "c < 64" using c1 by (auto dest: cont_natD)
    have cpv: "cp = a * 64 + c" using cp a c by (simp add: lead_mod cont_low)
    have rng: "128 \<le> cp" "cp < 2048" using cpv a c by linarith+
    show ?thesis
      using rng compose64 [OF c(2), of a]
      by (simp add: utf8_encode_nat_def Cons r n a c cpv)
  next
    case three
    with assms Cons obtain x1 x2 rr where r: "r = x1 # x2 # rr"
      and c1: "cont_nat x1" and c2: "cont_nat x2"
      and nb: "\<not> (if x1 < 160 then x0 = 224 else x0 = 237)"
      and cp: "cp = x0 mod 16 * 4096 + x1 mod 64 * 64 + x2 mod 64" and n: "n = 3"
      by (auto split: list.splits if_splits)
    obtain a where a: "x0 = 224 + a" "a < 16"
      using three by (auto intro: that [of "x0 - 224"])
    obtain d1 where d1: "x1 = 128 + d1" "d1 < 64" using c1 by (auto dest: cont_natD)
    obtain d2 where d2: "x2 = 128 + d2" "d2 < 64" using c2 by (auto dest: cont_natD)
    have cpv: "cp = (a * 64 + d1) * 64 + d2" using cp a d1 d2 by (simp add: lead_mod cont_low)
    have lo: "a = 0 \<longrightarrow> 32 \<le> d1" and hi: "a = 13 \<longrightarrow> d1 < 32"
      using nb a d1 by (auto split: if_splits)
    have rng: "2048 \<le> cp" "cp < 65536" "\<not> (55296 \<le> cp \<and> cp \<le> 57343)"
      using cpv a d1 d2 lo hi by (cases "a = 0"; cases "a = 13"; simp; linarith)+
    have dm: "cp div 64 = a * 64 + d1" "cp mod 64 = d2"
      using compose64 [OF d2(2), of "a * 64 + d1"] cpv by simp_all
    have dm2: "cp div 4096 = a" "cp div 64 mod 64 = d1"
      using compose64 [OF d1(2), of a] dm div_mult2_eq [of cp 64 64] by simp_all
    show ?thesis
      using rng by (simp add: utf8_encode_nat_def Cons r n a d1 d2 dm(2) dm2)
  next
    case four
    with assms Cons obtain x1 x2 x3 rr where r: "r = x1 # x2 # x3 # rr"
      and c1: "cont_nat x1" and c2: "cont_nat x2" and c3: "cont_nat x3"
      and nb: "\<not> (if x1 < 144 then x0 = 240 else x0 = 244)"
      and cp: "cp = x0 mod 8 * 262144 + x1 mod 64 * 4096 + x2 mod 64 * 64 + x3 mod 64"
      and n: "n = 4"
      by (auto split: list.splits if_splits)
    obtain a where a: "x0 = 240 + a" "a < 5"
      using four by (auto intro: that [of "x0 - 240"])
    then have a8: "a < 8" by simp
    obtain d1 where d1: "x1 = 128 + d1" "d1 < 64" using c1 by (auto dest: cont_natD)
    obtain d2 where d2: "x2 = 128 + d2" "d2 < 64" using c2 by (auto dest: cont_natD)
    obtain d3 where d3: "x3 = 128 + d3" "d3 < 64" using c3 by (auto dest: cont_natD)
    have cpv: "cp = ((a * 64 + d1) * 64 + d2) * 64 + d3"
      using cp a a8 d1 d2 d3 by (simp add: lead_mod cont_low)
    have lo: "a = 0 \<longrightarrow> 16 \<le> d1" and hi: "a = 4 \<longrightarrow> d1 < 16"
      using nb a d1 by (auto split: if_splits)
    have rng: "65536 \<le> cp" "cp < 1114112"
      using cpv a d1 d2 d3 lo hi by (cases "a = 0"; cases "a = 4"; simp; linarith)+
    have dm: "cp div 64 = (a * 64 + d1) * 64 + d2" "cp mod 64 = d3"
      using compose64 [OF d3(2), of "(a * 64 + d1) * 64 + d2"] cpv by simp_all
    have dm2: "cp div 4096 = a * 64 + d1" "cp div 64 mod 64 = d2"
      using compose64 [OF d2(2), of "a * 64 + d1"] dm div_mult2_eq [of cp 64 64] by simp_all
    have dm3: "cp div 262144 = a" "cp div 4096 mod 64 = d1"
      using compose64 [OF d1(2), of a] dm2 div_mult2_eq [of cp 4096 64] by simp_all
    show ?thesis
      using rng by (simp add: utf8_encode_nat_def Cons r n a d1 d2 d3 dm(2) dm2(2) dm3)
  qed
qed


lemma unat_of_nat_byte: "x < 256 \<Longrightarrow> unat (of_nat x :: byte) = x"
  by (simp add: unat_of_nat)

lemma next_of_encoded:
  assumes "utf8_encode_cp cp = Inr bs"
  shows "utf8_next (bs @ rest) = (Some cp, length bs)" and "bs \<noteq> []"
proof -
  from assms obtain ns where ns: "utf8_encode_nat cp = Some ns" and bs: "bs = map of_nat ns"
    by (auto simp: utf8_encode_cp_nat split: option.splits)
  have "map unat bs = ns"
    unfolding bs using utf8_encode_nat_bytes [OF ns]
    by (simp add: map_idI unat_of_nat_byte)
  then show "utf8_next (bs @ rest) = (Some cp, length bs)"
    using next_of_encoded_nat [OF ns, of "map unat rest"] bs by (simp add: utf8_next_nat)
  from ns bs show "bs \<noteq> []" by (auto simp: utf8_encode_nat_def split: if_splits)
qed

lemma encoded_of_next:
  assumes "utf8_next bs = (Some cp, n)"
  shows "utf8_encode_cp cp = Inr (take n bs)"
proof -
  from assms have "utf8_encode_nat cp = Some (take n (map unat bs))"
    by (intro encoded_of_next_nat) (simp add: utf8_next_nat)
  then show ?thesis
    by (simp add: utf8_encode_cp_nat take_map comp_def)
qed

lemma ill_formed_padded_nat:
  assumes "utf8_next_nat ns = (None, n)" and "2 \<le> n"
  shows "\<exists>cp m. utf8_next_nat (take n ns @ [128, 128]) = (Some cp, m) \<and> n < m"
  using assms
  by (cases ns) (auto simp: cont_nat_def split: if_splits list.splits)

lemma ill_formed_local_nat:
  assumes "utf8_next_nat ns = (None, n)" and "n < length ns"
    and "take (Suc n) ms = take (Suc n) ns"
  shows "fst (utf8_next_nat ms) = None"
  using assms
  by (cases ns; cases ms) (auto simp: take_Suc_Cons split: if_splits list.splits)


lemma encoding_prefix_shorter: "encoding_prefix (p @ q) \<Longrightarrow> encoding_prefix p"
  by (auto simp: encoding_prefix_def)

lemma next_None_not_code_point:
  assumes "fst (utf8_next bs) = None"
  shows "\<not> code_point_starts bs"
proof
  assume "code_point_starts bs"
  then obtain cp enc tail where "utf8_encode_cp cp = Inr enc" "bs = enc @ tail"
    by (auto simp: code_point_starts_def)
  then have "utf8_next bs = (Some cp, length enc)" by (simp add: next_of_encoded)
  with assms show False by simp
qed

lemma next_None_maximal:
  assumes "utf8_next (b # bs) = (None, n)"
  shows "maximal_subpart (take n (b # bs)) (drop n (b # bs))"
proof -
  let ?data = "b # bs"
  let ?ns = "map unat ?data"
  have nat: "utf8_next_nat ?ns = (None, n)" using assms by (simp only: utf8_next_nat)
  have n1: "0 < n" using utf8_next_consumes [of b bs] assms by simp
  have nle: "n \<le> length ?data" using utf8_next_bounded [of ?data] assms by simp
  have 1: "take n ?data \<noteq> []" using n1 by simp
  have 2: "\<not> code_point_starts (take n ?data @ drop n ?data)"
    using next_None_not_code_point [of ?data] assms by simp
  have 3: "length (take n ?data) = 1 \<or> encoding_prefix (take n ?data)"
  proof (cases "n = 1")
    case True
    then show ?thesis by simp
  next
    case False
    with n1 have "2 \<le> n" by simp
    from ill_formed_padded_nat [OF nat this] obtain cp m where
      m: "utf8_next_nat (take n ?ns @ [128, 128]) = (Some cp, m)" "n < m" by blast
    have "map unat (take n ?data @ [128, 128]) = take n ?ns @ [128, 128]"
      unfolding map_append take_map by simp
    with m have "utf8_next (take n ?data @ [128, 128]) = (Some cp, m)"
      by (simp only: utf8_next_nat)
    then have "utf8_encode_cp cp = Inr (take m (take n ?data @ [128, 128]))"
      by (rule encoded_of_next)
    moreover have "take m (take n ?data @ [128, 128]) = take n ?data @ take (m - n) [128, 128]"
      using m(2) nle by simp
    ultimately show ?thesis by (auto simp: encoding_prefix_def)
  qed
  have 4: "case drop n ?data of [] \<Rightarrow> True
      | c # rest' \<Rightarrow> \<not> encoding_prefix (take n ?data @ [c])"
  proof (cases "drop n ?data")
    case Nil
    then show ?thesis by simp
  next
    case (Cons c rest')
    have nlt: "n < length ?data" using Cons by (metis drop_all list.distinct(1) not_le)
    have tk: "take (Suc n) ?data = take n ?data @ [c]"
      using Cons nlt by (metis take_Suc_conv_app_nth hd_drop_conv_nth list.sel(1))
    have "\<not> encoding_prefix (take n ?data @ [c])"
    proof
      assume "encoding_prefix (take n ?data @ [c])"
      then obtain cp tail where e: "utf8_encode_cp cp = Inr ((take n ?data @ [c]) @ tail)"
        by (auto simp: encoding_prefix_def)
      let ?enc = "(take n ?data @ [c]) @ tail"
      from next_of_encoded(1) [OF e, of "[]"] have "utf8_next ?enc = (Some cp, length ?enc)"
        by simp
      then have some: "fst (utf8_next_nat (map unat ?enc)) = Some cp"
        by (simp only: utf8_next_nat fst_conv)
      have "take (Suc n) ?enc = take (Suc n) ?data"
        using tk nle by simp
      then have "take (Suc n) (map unat ?enc) = take (Suc n) ?ns"
        unfolding take_map by (rule arg_cong)
      from ill_formed_local_nat [OF nat _ this] nlt some show False by simp
    qed
    with Cons show ?thesis by simp
  qed
  from 1 2 3 4 show ?thesis unfolding maximal_subpart_def by blast
qed

lemma decode_is_replace_decoding:
  "bytes_decode_utf8 Replace data = Inr s \<Longrightarrow> utf8_replace_decoding data s"
proof (induction "length data" arbitrary: data s rule: less_induct)
  case less
  show ?case
  proof (cases data)
    case Nil
    with less.prems show ?thesis by (auto intro: utf8_replace_decoding.nothing)
  next
    case (Cons b bs)
    obtain r n where rn: "utf8_next (b # bs) = (r, n)" by (cases "utf8_next (b # bs)")
    have n1: "0 < n" using utf8_next_consumes [of b bs] rn by simp
    let ?rest = "drop n (b # bs)"
    have shorter: "length ?rest < length data" using n1 Cons by simp
    have split: "data = take n (b # bs) @ ?rest" using Cons by simp
    from less.prems Cons rn obtain s' where
      s': "bytes_decode_utf8 Replace ?rest = Inr s'"
      and s: "s = (case r of None \<Rightarrow> replacement_character | Some cp \<Rightarrow> cp) # s'"
      by (auto simp del: utf8_next.simps split: option.splits sum.splits)
    from less.hyps [OF shorter s'] have IH: "utf8_replace_decoding ?rest s'" .
    show ?thesis
    proof (cases r)
      case None
      with rn have "maximal_subpart (take n (b # bs)) ?rest" by (simp add: next_None_maximal)
      from utf8_replace_decoding.ill_formed [OF this IH] s None split show ?thesis by simp
    next
      case (Some cp)
      with rn have "utf8_encode_cp cp = Inr (take n (b # bs))" by (simp add: encoded_of_next)
      from utf8_replace_decoding.code_point [OF this IH] s Some split show ?thesis by simp
    qed
  qed
qed


lemma maximal_subpart_longer:
  assumes "maximal_subpart c1 r1" and "maximal_subpart c2 r2" and "c1 @ r1 = c2 @ r2"
  shows "\<not> length c1 < length c2"
proof
  assume lt: "length c1 < length c2"
  with assms(3) obtain x t where c2: "c2 = c1 @ x # t" and r1: "r1 = x # t @ r2"
    by (auto simp: append_eq_append_conv2 neq_Nil_conv)
  from assms(2) have "length c2 = 1 \<or> encoding_prefix c2" by (simp add: maximal_subpart_def)
  moreover from assms(1) c2 have "length c2 \<noteq> 1" by (auto simp: maximal_subpart_def)
  ultimately have "encoding_prefix c2" by blast
  then have "encoding_prefix ((c1 @ [x]) @ t)" using c2 by simp
  then have "encoding_prefix (c1 @ [x])" by (rule encoding_prefix_shorter)
  with assms(1) r1 show False by (simp add: maximal_subpart_def)
qed

lemma maximal_subpart_unique:
  assumes "maximal_subpart c1 r1" and "maximal_subpart c2 r2" and "c1 @ r1 = c2 @ r2"
  shows "c1 = c2 \<and> r1 = r2"
proof -
  have "length c1 = length c2"
    using maximal_subpart_longer [OF assms] maximal_subpart_longer [OF assms(2,1) assms(3) [symmetric]]
    by simp
  with assms(3) show ?thesis by simp
qed

lemma decode_Cons:
  "bytes_decode_utf8 Replace (b # bs) =
     (case bytes_decode_utf8 Replace (drop (snd (utf8_next (b # bs))) (b # bs)) of
        Inl e \<Rightarrow> Inl e
      | Inr s \<Rightarrow>
          Inr ((case fst (utf8_next (b # bs)) of
                  None \<Rightarrow> replacement_character
                | Some cp \<Rightarrow> cp) # s))"
  by (simp del: utf8_next.simps split: option.split sum.split)

lemma replace_decoding_is_decode:
  "utf8_replace_decoding data s \<Longrightarrow> bytes_decode_utf8 Replace data = Inr s"
proof (induction rule: utf8_replace_decoding.induct)
  case nothing
  show ?case by simp
next
  case (code_point cp enc rest s)
  have nx: "utf8_next (enc @ rest) = (Some cp, length enc)" and ne: "enc \<noteq> []"
    using code_point.hyps(1) by (rule next_of_encoded)+
  from ne obtain b bs where c: "enc @ rest = b # bs" by (cases enc) auto
  show ?case
    unfolding c decode_Cons using nx code_point.IH by (simp add: c [symmetric])
next
  case (ill_formed chunk rest s)
  from ill_formed.hyps(1) have ne: "chunk \<noteq> []" by (simp add: maximal_subpart_def)
  then obtain b bs where c: "chunk @ rest = b # bs" by (cases chunk) auto
  obtain r n where rn: "utf8_next (b # bs) = (r, n)" by (cases "utf8_next (b # bs)")
  have "r = None"
  proof (cases r)
    case None
    then show ?thesis .
  next
    case (Some cp)
    with rn have "utf8_encode_cp cp = Inr (take n (b # bs))" by (simp add: encoded_of_next)
    moreover have "b # bs = take n (b # bs) @ drop n (b # bs)" by simp
    ultimately have "code_point_starts (b # bs)" unfolding code_point_starts_def by blast
    with ill_formed.hyps(1) c show ?thesis by (simp add: maximal_subpart_def)
  qed
  with rn have "maximal_subpart (take n (b # bs)) (drop n (b # bs))"
    by (simp add: next_None_maximal)
  from maximal_subpart_unique [OF this ill_formed.hyps(1)] c
  have "drop n (b # bs) = rest" by simp
  with rn \<open>r = None\<close> ill_formed.IH show ?case
    unfolding c decode_Cons by simp
qed

lemma encoded_replace_decoding:
  "str_encode_utf8 s = Inr data \<Longrightarrow> utf8_replace_decoding data s"
proof (induction s arbitrary: data)
  case Nil
  then show ?case by (auto intro: utf8_replace_decoding.nothing)
next
  case (Cons cp s)
  then obtain enc rest where "utf8_encode_cp cp = Inr enc" "str_encode_utf8 s = Inr rest"
    "data = enc @ rest"
    by (auto split: sum.splits)
  with Cons.IH show ?case by (auto intro: utf8_replace_decoding.code_point)
qed

lemma decode_encoded: "str_encode_utf8 s = Inr data \<Longrightarrow> bytes_decode_utf8 Replace data = Inr s"
  by (blast intro: replace_decoding_is_decode encoded_replace_decoding)


section \<open>Properties of safe reading\<close>

lemma decode_replace_total: "\<exists>s. bytes_decode_utf8 Replace bs = Inr s"
proof (induction "length bs" arbitrary: bs rule: less_induct)
  case less
  show ?case
  proof (cases bs)
    case Nil
    then show ?thesis by simp
  next
    case (Cons b r)
    have "length (drop (snd (utf8_next (b # r))) (b # r)) < length bs"
      using utf8_next_consumes [of b r] Cons by simp
    then obtain s where
      "bytes_decode_utf8 Replace (drop (snd (utf8_next (b # r))) (b # r)) = Inr s"
      using less by blast
    then show ?thesis using Cons
      by (simp del: utf8_next.simps split: option.split)
  qed
qed

lemma is_binary_bytes_total: "\<exists>b. is_binary_bytes chunk = Inr b"
  by (auto simp: is_binary_bytes_def py_truediv_def Let_def)

lemma getsize_raises_Exception: "os_path_getsize fs p = Inl e \<Longrightarrow> is_Exception e"
  by (auto simp: os_path_getsize_def is_Exception_def
      split: if_splits sum.splits fsnode.splits)

lemma open_raises_Exception: "open_rb_read fs p = Inl e \<Longrightarrow> is_Exception e"
  by (auto simp: open_rb_read_def is_Exception_def
      split: if_splits sum.splits fsnode.splits option.splits)

lemma try_raises_Exception:
  assumes "read_text_safe_try fs p mb = Inl e"
  shows "is_Exception e"
proof (cases "os_path_getsize fs p")
  case (Inl e')
  with assms have "e = e'" by (simp add: read_text_safe_try_def)
  with Inl show ?thesis by (auto dest: getsize_raises_Exception)
next
  case (Inr n)
  note size = this
  show ?thesis
  proof (cases "open_rb_read fs p")
    case (Inl e')
    with assms size have "e = e'"
      by (simp add: read_text_safe_try_def split: if_splits)
    with Inl show ?thesis by (auto dest: open_raises_Exception)
  next
    case (Inr data)
    obtain b where b: "is_binary_bytes (take 1024 data) = Inr b"
      using is_binary_bytes_total by blast
    obtain s where s: "bytes_decode_utf8 Replace data = Inr s"
      using decode_replace_total by blast
    from assms size Inr b s show ?thesis
      by (cases b) (simp_all add: read_text_safe_try_def split: if_splits)
  qed
qed

lemma read_text_safe_returns: "\<exists>r. read_text_safe fs p mb = Inr r"
proof (cases "read_text_safe_try fs p mb")
  case (Inl e)
  then have "is_Exception e" by (rule try_raises_Exception)
  with Inl show ?thesis by (simp add: read_text_safe_def)
next
  case (Inr r)
  then show ?thesis by (simp add: read_text_safe_def)
qed

text \<open>
  C3. For a file whose size exceeds \<open>max_bytes\<close> (2,000,000 by default), and for a
  file whose first 1024 bytes classify as binary (in particular when they contain a
  null byte), \<open>read_text_safe\<close> returns \<open>None\<close>, whatever the rest of the content is.
\<close>

theorem read_text_safe_declines:
  assumes "lookup fs p = Inr (File f content)"
  shows "(max_bytes < int (length content) \<longrightarrow> read_text_safe fs p max_bytes = Inr None)
       \<and> (is_binary_bytes (take 1024 content) = Inr True
            \<longrightarrow> read_text_safe fs p max_bytes = Inr None)
       \<and> (0 \<in> set (take 1024 content) \<longrightarrow> read_text_safe fs p max_bytes = Inr None)
       \<and> (2000000 < length content \<longrightarrow> read_text_safe fs p default_max_bytes = Inr None)"
  using assms
  by (auto simp: read_text_safe_def read_text_safe_try_def os_path_getsize_def
      open_rb_read_def is_Exception_def default_max_bytes_def is_binary_bytes_def
      split: option.splits)

lemma lookup_b_bin: "lookup example_fs [''proj'', ''b.bin''] = Inr (File None [0, 1, 2])"
  by (simp add: example_fs_def)

lemma lookup_a_py: "lookup example_fs [''proj'', ''a.py''] = Inr (File None (map of_char ''print(1)''))"
  by (simp add: example_fs_def)

theorem read_text_safe_declines_witness:
  "read_text_safe example_fs [''proj'', ''b.bin''] default_max_bytes = Inr None
   \<and> read_text_safe example_fs [''proj'', ''a.py''] 5 = Inr None"
  using read_text_safe_declines [OF lookup_b_bin, of default_max_bytes]
    read_text_safe_declines [OF lookup_a_py, of 5]
  by simp

lemma decode_strict_replace:
  "bytes_decode_utf8 Strict bs = Inr s \<Longrightarrow> bytes_decode_utf8 Replace bs = Inr s"
proof (induction "length bs" arbitrary: bs s rule: less_induct)
  case less
  show ?case
  proof (cases bs)
    case Nil
    with less.prems show ?thesis by simp
  next
    case (Cons b r)
    let ?rest = "drop (snd (utf8_next (b # r))) (b # r)"
    have shorter: "length ?rest < length bs"
      using utf8_next_consumes [of b r] Cons by simp
    from less.prems Cons obtain cp s' where
      cp: "fst (utf8_next (b # r)) = Some cp" and
      s': "bytes_decode_utf8 Strict ?rest = Inr s'" and s: "s = cp # s'"
      by (auto simp del: utf8_next.simps split: option.splits sum.splits)
    from less.hyps [OF shorter s'] cp s Cons show ?thesis
      by (simp del: utf8_next.simps)
  qed
qed

text \<open>
  C4. \<open>read_text_safe\<close> never raises. A failure of \<^verbatim>\<open>os.path.getsize\<close> or of opening and
  reading the file is caught and becomes \<open>None\<close>. Decoding with \<^verbatim>\<open>errors="replace"\<close>
  never fails: its result is exactly the UTF-8 decoding of the data with every
  maximal ill-formed subpart replaced by one U+FFFD (\<open>utf8_replace_decoding\<close>), so
  that data which encodes a string decodes to that string. A file that passes the
  size and binary checks is returned as \<open>Some\<close> of this decoding.
\<close>

theorem read_text_safe_never_raises:
  "(\<exists>r. read_text_safe fs p max_bytes = Inr r)
   \<and> (os_path_getsize fs p = Inl e \<longrightarrow> read_text_safe fs p max_bytes = Inr None)
   \<and> (open_rb_read fs p = Inl e \<longrightarrow> read_text_safe fs p max_bytes = Inr None)
   \<and> (\<exists>s. bytes_decode_utf8 Replace data = Inr s)
   \<and> (\<forall>s. bytes_decode_utf8 Replace data = Inr s \<longleftrightarrow> utf8_replace_decoding data s)
   \<and> (str_encode_utf8 t = Inr data \<longrightarrow> bytes_decode_utf8 Replace data = Inr t)
   \<and> (os_path_getsize fs p = Inr n \<and> int n \<le> max_bytes \<and> open_rb_read fs p = Inr data
        \<and> is_binary_bytes (take 1024 data) = Inr False
      \<longrightarrow> (\<exists>s. utf8_replace_decoding data s
               \<and> read_text_safe fs p max_bytes = Inr (Some s)))"
proof -
  have a: "os_path_getsize fs p = Inl e \<longrightarrow> read_text_safe fs p max_bytes = Inr None"
    by (auto simp: read_text_safe_def read_text_safe_try_def
        dest: getsize_raises_Exception)
  have b: "open_rb_read fs p = Inl e \<longrightarrow> read_text_safe fs p max_bytes = Inr None"
    by (auto simp: read_text_safe_def read_text_safe_try_def
        dest: getsize_raises_Exception open_raises_Exception split: sum.splits)
  obtain s where s: "bytes_decode_utf8 Replace data = Inr s"
    using decode_replace_total by blast
  have d: "bytes_decode_utf8 Replace data = Inr s' \<longleftrightarrow> utf8_replace_decoding data s'" for s'
    by (blast intro: decode_is_replace_decoding replace_decoding_is_decode)
  have e: "str_encode_utf8 t = Inr data \<longrightarrow> bytes_decode_utf8 Replace data = Inr t"
    by (blast intro: decode_encoded)
  from s have c: "os_path_getsize fs p = Inr n \<and> int n \<le> max_bytes \<and> open_rb_read fs p = Inr data
        \<and> is_binary_bytes (take 1024 data) = Inr False
      \<longrightarrow> (\<exists>s. utf8_replace_decoding data s
               \<and> read_text_safe fs p max_bytes = Inr (Some s))"
    using d [of s] by (auto simp: read_text_safe_def read_text_safe_try_def)
  from a b c d e s read_text_safe_returns show ?thesis by blast
qed

lemma lookup_locked:
  "lookup example_fs [''proj'', ''locked.txt'']
     = Inr (File (Some PermissionError) (map of_char ''secret''))"
  by (simp add: example_fs_def)

lemma lookup_gone: "lookup example_fs [''proj'', ''gone.txt''] = Inl FileNotFoundError"
  by (simp add: example_fs_def)

lemma lookup_latin1:
  "lookup example_fs [''proj'', ''latin1.txt''] = Inr (File None [0x63, 0x61, 0x66, 0xE9])"
  by (simp add: example_fs_def)

lemma latin1_not_binary: "is_binary_bytes (take 1024 [0x63, 0x61, 0x66, 0xE9]) = Inr False"
  by (simp add: is_binary_bytes_eq fraction_outside_def outside_text_set_def)

lemma latin1_decoded:
  "bytes_decode_utf8 Replace [0x63, 0x61, 0x66, 0xE9] = Inr [0x63, 0x61, 0x66, 0xFFFD]"
  by (simp add: replacement_character_def)

lemma latin1_strict: "bytes_decode_utf8 Strict [0x63, 0x61, 0x66, 0xE9] = Inl UnicodeDecodeError"
  by simp

theorem read_text_safe_never_raises_witness:
  "read_text_safe example_fs [''proj'', ''locked.txt''] default_max_bytes = Inr None
   \<and> read_text_safe example_fs [''proj'', ''gone.txt''] default_max_bytes = Inr None
   \<and> read_text_safe example_fs [''proj'', ''latin1.txt''] default_max_bytes
       = Inr (Some [0x63, 0x61, 0x66, 0xFFFD])
   \<and> utf8_replace_decoding [0xE2, 0x82, 0xAC, 0xF0, 0x9F, 0x41] [0x20AC, 0xFFFD, 0x41]"
proof -
  have "open_rb_read example_fs [''proj'', ''locked.txt''] = Inl (OSError PermissionError)"
    by (simp add: open_rb_read_def has_nul_def lookup_locked)
  with read_text_safe_never_raises
    [of example_fs "[''proj'', ''locked.txt'']" default_max_bytes "OSError PermissionError"]
  have 1: "read_text_safe example_fs [''proj'', ''locked.txt''] default_max_bytes = Inr None"
    by blast
  have "os_path_getsize example_fs [''proj'', ''gone.txt''] = Inl (OSError FileNotFoundError)"
    by (simp add: os_path_getsize_def has_nul_def lookup_gone)
  with read_text_safe_never_raises
    [of example_fs "[''proj'', ''gone.txt'']" default_max_bytes "OSError FileNotFoundError"]
  have 2: "read_text_safe example_fs [''proj'', ''gone.txt''] default_max_bytes = Inr None"
    by blast
  have "os_path_getsize example_fs [''proj'', ''latin1.txt''] = Inr 4"
    and "int 4 \<le> default_max_bytes"
    and "open_rb_read example_fs [''proj'', ''latin1.txt''] = Inr [0x63, 0x61, 0x66, 0xE9]"
    by (simp_all add: os_path_getsize_def open_rb_read_def has_nul_def lookup_latin1
        default_max_bytes_def)
  with latin1_not_binary read_text_safe_never_raises
    [of example_fs "[''proj'', ''latin1.txt'']" default_max_bytes _ "[0x63, 0x61, 0x66, 0xE9]" _ 4]
  have "\<exists>s. bytes_decode_utf8 Replace [0x63, 0x61, 0x66, 0xE9] = Inr s
       \<and> read_text_safe example_fs [''proj'', ''latin1.txt''] default_max_bytes = Inr (Some s)"
    by blast
  then have 3: "read_text_safe example_fs [''proj'', ''latin1.txt''] default_max_bytes
      = Inr (Some [0x63, 0x61, 0x66, 0xFFFD])"
    by (simp add: replacement_character_def)
  have "bytes_decode_utf8 Replace [0xE2, 0x82, 0xAC, 0xF0, 0x9F, 0x41] = Inr [0x20AC, 0xFFFD, 0x41]"
    by (simp add: replacement_character_def is_continuation_def cont_bits_def)
  with read_text_safe_never_raises
    [of _ _ _ _ "[0xE2, 0x82, 0xAC, 0xF0, 0x9F, 0x41]"]
  have 4: "utf8_replace_decoding [0xE2, 0x82, 0xAC, 0xF0, 0x9F, 0x41] [0x20AC, 0xFFFD, 0x41]"
    by blast
  from 1 2 3 4 show ?thesis by simp
qed

text \<open>
  C10, as stated: "for every existing, readable, empty file \<^verbatim>\<open>read_text_safe\<close> returns
  the empty string and not \<open>None\<close>: 0 bytes never exceed \<^verbatim>\<open>max_bytes\<close>". \<^verbatim>\<open>max_bytes\<close> is
  any Python integer, and with a negative one the size 0 does exceed it.
\<close>

theorem read_text_safe_empty_file_counterexample:
  "lookup example_fs [''proj'', ''empty.txt''] = Inr (File None [])
   \<and> read_text_safe example_fs [''proj'', ''empty.txt''] (- 1) = Inr None"
  by (simp add: example_fs_def read_text_safe_def read_text_safe_try_def
      os_path_getsize_def has_nul_def)

text \<open>
  C10, amended. An existing, readable, empty file is read as \<open>Some\<close> of the empty
  string, and not as \<open>None\<close>, whenever \<^verbatim>\<open>max_bytes\<close> is not negative, in particular for
  the default of 2,000,000: the empty sample is not binary, and a size of 0 exceeds
  no \<^verbatim>\<open>max_bytes\<close> from 0 upwards.
\<close>

theorem read_text_safe_empty_file:
  assumes "wf_fs fs" and "lookup fs p = Inr (File None [])"
  shows "read_text_safe fs p default_max_bytes = Inr (Some [])
       \<and> (0 \<le> max_bytes \<longrightarrow> read_text_safe fs p max_bytes = Inr (Some []))
       \<and> is_binary_bytes [] = Inr False"
proof -
  from assms have "\<not> has_nul p" by (rule lookup_no_nul)
  with assms(2) show ?thesis
    by (simp add: read_text_safe_def read_text_safe_try_def os_path_getsize_def
        open_rb_read_def default_max_bytes_def is_binary_bytes_eq fraction_outside_def)
qed

lemma lookup_empty: "lookup example_fs [''proj'', ''empty.txt''] = Inr (File None [])"
  by (simp add: example_fs_def)

theorem read_text_safe_empty_file_witness:
  "read_text_safe example_fs [''proj'', ''empty.txt''] default_max_bytes = Inr (Some [])
   \<and> read_text_safe example_fs [''proj'', ''empty.txt''] 0 = Inr (Some [])"
  using read_text_safe_empty_file [OF wf_example lookup_empty, of 0] by simp

section \<open>Properties of the traversal\<close>

lemma walk_node_iff:
  "(dirpath, dirs, files) \<in> set (walk_node prune_dirs tp node) \<longleftrightarrow>
   (\<exists>ds es. dirpath = tp @ ds \<and> visits node ds = Some es
            \<and> dirs = prune_dirs (list_dirs es) \<and> files = list_nondirs es)"
proof (induction prune_dirs tp node arbitrary: dirpath dirs files rule: walk_node.induct)
  case (1 tp f c)
  then show ?case by simp
next
  case (2 tp e es)
  then show ?case by simp
next
  case (3 tp es)
  let ?ds = "prune_dirs (list_dirs es)"
  have IH: "\<And>d child dirpath dirs files. d \<in> set ?ds \<Longrightarrow> map_of es d = Some child \<Longrightarrow>
     ((dirpath, dirs, files) \<in> set (walk_node prune_dirs (os_path_join tp d) child)) =
       (\<exists>ds es. dirpath = os_path_join tp d @ ds \<and> visits child ds = Some es
            \<and> dirs = prune_dirs (list_dirs es) \<and> files = list_nondirs es)"
    using 3 by blast
  show ?case (is "?L = ?R")
  proof
    assume ?L
    then consider "(dirpath, dirs, files) = (tp, ?ds, list_nondirs es)"
      | d child where "d \<in> set ?ds" "map_of es d = Some child"
          "(dirpath, dirs, files) \<in> set (walk_node prune_dirs (os_path_join tp d) child)"
      by (auto simp: Let_def split: option.splits) (metis (no_types))
    then show ?R
    proof cases
      case 1
      then have "dirpath = tp @ [] \<and> visits (Dir None es) [] = Some es
            \<and> dirs = prune_dirs (list_dirs es) \<and> files = list_nondirs es" by simp
      then show ?thesis by blast
    next
      case 2
      from IH [OF 2(1,2)] 2(3) obtain ds' es' where
        *: "dirpath = os_path_join tp d @ ds'" "visits child ds' = Some es'"
           "dirs = prune_dirs (list_dirs es')" "files = list_nondirs es'" by blast
      from * 2 have "dirpath = tp @ (d # ds') \<and> visits (Dir None es) (d # ds') = Some es'
            \<and> dirs = prune_dirs (list_dirs es') \<and> files = list_nondirs es'"
        by (simp add: os_path_join_def)
      then show ?thesis by blast
    qed
  next
    assume ?R
    then obtain ds es' where
      *: "dirpath = tp @ ds" "visits (Dir None es) ds = Some es'"
         "dirs = prune_dirs (list_dirs es')" "files = list_nondirs es'" by blast
    show ?L
    proof (cases ds)
      case Nil
      with * show ?thesis by (simp add: Let_def)
    next
      case (Cons d ds')
      with *(2) obtain child where
        d: "d \<in> set ?ds" "map_of es d = Some child" "visits child ds' = Some es'"
        by (auto split: if_splits option.splits)
      have "(dirpath, dirs, files) \<in> set (walk_node prune_dirs (os_path_join tp d) child)"
        using IH [OF d(1,2)] * d(3) Cons by (auto simp: os_path_join_def)
      with d show ?thesis by (auto simp: Let_def intro!: bexI [of _ d])
    qed
  qed
qed

lemma visits_kept: "visits node ds = Some es \<Longrightarrow> d \<in> set ds \<Longrightarrow> keep_dir d"
  by (induction node ds rule: visits.induct)
     (auto simp: keep_dir_def prune_dirs_def split: if_splits option.splits)

lemma visits_lookup: "visits node ds = Some es \<Longrightarrow> lookup node ds = Inr (Dir None es)"
  by (induction node ds rule: visits.induct) (auto split: if_splits option.splits)

lemma normpath_step_plain: "list_all plain acc \<Longrightarrow> list_all plain (normpath_step acc c)"
  by (auto simp: normpath_step_def plain_def list_all_iff dest: in_set_butlastD)

lemma normpath_fold_plain: "list_all plain acc \<Longrightarrow> list_all plain (foldl normpath_step acc cs)"
  by (induction cs arbitrary: acc) (simp_all add: normpath_step_plain)

lemma normpath_fold_id: "list_all plain cs \<Longrightarrow> foldl normpath_step acc cs = acc @ cs"
  by (induction cs arbitrary: acc) (auto simp: normpath_step_def plain_def)

lemma abspath_from_plain: "list_all plain (abspath_from c base)"
  by (simp add: abspath_from_def normpath_abs_def normpath_fold_plain)

lemma abspath_plain: "os_path_abspath fs cwd base = Inr b \<Longrightarrow> list_all plain b"
  by (auto simp: os_path_abspath_def abspath_from_plain split: if_splits sum.splits)

lemma normpath_abs_id: "list_all plain cs \<Longrightarrow> normpath_abs cs = cs"
  by (simp add: normpath_abs_def normpath_fold_id)

lemma common_prefix_len_append: "common_prefix_len xs (xs @ ys) = length xs"
  by (induction xs) simp_all

lemma safe_relpath_below:
  assumes "list_all plain b" and "list_all plain r" and "r \<noteq> []"
  shows "safe_relpath (b @ r) b = r"
  using assms
  by (simp add: safe_relpath_def os_path_relpath_def normpath_abs_id Let_def
      common_prefix_len_append)

lemma valid_name_plain: "valid_name n \<Longrightarrow> plain n"
  by (simp add: valid_name_def plain_def)

lemma visits_valid:
  "wf_fs node \<Longrightarrow> visits node ds = Some es \<Longrightarrow> list_all valid_name ds \<and> wf_fs (Dir None es)"
proof (induction node ds rule: visits.induct)
  case (4 es d ds)
  then show ?case
    using wf_map_of [of None es d]
    by (auto split: if_splits option.splits simp del: wf_fs.simps)
qed simp_all

lemma nondirs_valid: "wf_fs (Dir f es) \<Longrightarrow> name \<in> set (list_nondirs es) \<Longrightarrow> valid_name name"
  by (auto simp: list_nondirs_def list_all_iff)

lemma iter_files_in_iff:
  "(full, rel) \<in> set (iter_files_in lower b include_exts dirpath files) \<longleftrightarrow>
   (\<exists>name \<in> set files. full = os_path_join dirpath name \<and> rel = safe_relpath full b
      \<and> qualifies lower include_exts name)"
  by (auto simp: iter_files_in_def qualifies_def Let_def split: option.splits if_splits)

lemma iter_files_iff:
  assumes "os_path_abspath fs cwd base = Inr b"
  shows "(full, rel) \<in> set (yielded (iter_files lower fs cwd base include_exts)) \<longleftrightarrow>
   (\<exists>dirpath dirs files name.
      (dirpath, dirs, files) \<in> set (yielded (os_walk fs prune_dirs b))
      \<and> name \<in> set files \<and> full = os_path_join dirpath name
      \<and> rel = safe_relpath full b \<and> qualifies lower include_exts name)"
proof (cases "os_walk fs prune_dirs b")
  case (Inl e)
  with assms show ?thesis by (simp add: iter_files_def yielded_def)
next
  case (Inr ts)
  with assms show ?thesis
    unfolding iter_files_def yielded_def
    by (auto simp: iter_files_in_iff) blast+
qed

lemma iter_files_no_abspath:
  "os_path_abspath fs cwd base = Inl e \<Longrightarrow> iter_files lower fs cwd base include_exts = Inl e"
  by (simp add: iter_files_def)

lemma os_walk_iff:
  "(dirpath, dirs, files) \<in> set (yielded (os_walk fs prune_dirs tp)) \<longleftrightarrow>
   (\<not> has_nul tp \<and>
    (\<exists>node ds es. lookup fs tp = Inr node \<and> dirpath = tp @ ds \<and> visits node ds = Some es
            \<and> dirs = prune_dirs (list_dirs es) \<and> files = list_nondirs es))"
  by (cases "lookup fs tp") (auto simp: os_walk_def yielded_def walk_node_iff)

lemma iter_files_entry:
  assumes wf: "wf_fs fs"
    and mem: "(full, rel) \<in> set (yielded (iter_files lower fs cwd base include_exts))"
  shows "\<exists>b node ds es name. os_path_abspath fs cwd base = Inr b \<and> lookup fs b = Inr node
          \<and> visits node ds = Some es \<and> name \<in> set (list_nondirs es)
          \<and> qualifies lower include_exts name
          \<and> rel = ds @ [name] \<and> full = b @ rel"
proof -
  from mem obtain b where b: "os_path_abspath fs cwd base = Inr b"
    by (cases "os_path_abspath fs cwd base") (auto simp: iter_files_def yielded_def)
  from mem obtain node ds es name where
    n: "lookup fs b = Inr node" and v: "visits node ds = Some es"
    and nm: "name \<in> set (list_nondirs es)" and q: "qualifies lower include_exts name"
    and full: "full = os_path_join (b @ ds) name" and rel: "rel = safe_relpath full b"
    unfolding iter_files_iff [OF b] os_walk_iff by blast
  from wf n have "wf_fs node" by (rule lookup_wf)
  with v have ds: "list_all valid_name ds" and wfes: "wf_fs (Dir None es)"
    using visits_valid by blast+
  from wfes nm have "valid_name name" by (rule nondirs_valid)
  with ds have "list_all plain (ds @ [name])"
    by (auto simp: list_all_iff valid_name_plain)
  then have "safe_relpath (b @ (ds @ [name])) b = ds @ [name]"
    using abspath_plain [OF b] by (intro safe_relpath_below) simp_all
  with full rel have "rel = ds @ [name]" "full = b @ rel"
    by (simp_all add: os_path_join_def)
  with b n v nm q show ?thesis by blast
qed

lemma abspath_example: "os_path_abspath example_fs [''proj''] ''.'' = Inr [''proj'']"
  by code_simp

lemma iter_example:
  "iter_files ascii_lower example_fs [''proj''] ''.'' None =
     Inr [([''proj'', ''a.py''], [''a.py'']),
      ([''proj'', ''b.bin''], [''b.bin'']),
      ([''proj'', ''empty.txt''], [''empty.txt'']),
      ([''proj'', ''latin1.txt''], [''latin1.txt'']),
      ([''proj'', ''locked.txt''], [''locked.txt'']),
      ([''proj'', ''.gitignore''], [''.gitignore'']),
      ([''proj'', ''src'', ''node_modules''], [''src'', ''node_modules'']),
      ([''proj'', ''src'', ''Main.PY''], [''src'', ''Main.PY''])]"
  by code_simp

text \<open>
  C1. In a well-formed tree, for every scan root and every directory name \<open>d\<close> that is
  in \<open>DEFAULT_EXCLUDE_DIRS\<close> or starts with a dot: no yielded relative path has \<open>d\<close>
  among its directory components (the relative path is the part of the full path
  below the root), no visited directory lies below the root through \<open>d\<close>, and \<open>d\<close> is
  never among the names left to descend into.
\<close>

theorem iter_files_prunes_excluded:
  assumes "wf_fs fs" and "d \<in> DEFAULT_EXCLUDE_DIRS \<or> str_startswith d ''.''"
  shows "(\<forall>(full, rel) \<in> set (yielded (iter_files lower fs cwd base include_exts)).
            d \<notin> set (butlast rel)
            \<and> (\<exists>b. os_path_abspath fs cwd base = Inr b \<and> full = b @ rel))
       \<and> (\<forall>b. os_path_abspath fs cwd base = Inr b \<longrightarrow>
            (\<forall>(dirpath, dirs, files) \<in> set (yielded (os_walk fs prune_dirs b)).
               d \<notin> set (drop (length b) dirpath) \<and> d \<notin> set dirs))"
proof -
  have nk: "\<not> keep_dir d" using assms(2) by (auto simp: keep_dir_def)
  have "d \<notin> set (butlast rel) \<and> (\<exists>b. os_path_abspath fs cwd base = Inr b \<and> full = b @ rel)"
    if "(full, rel) \<in> set (yielded (iter_files lower fs cwd base include_exts))" for full rel
  proof -
    from iter_files_entry [OF assms(1) that] obtain b node ds es name where
      "visits node ds = Some es" "rel = ds @ [name]"
      "os_path_abspath fs cwd base = Inr b" "full = b @ rel"
      by blast
    with nk show ?thesis by (auto dest: visits_kept)
  qed
  moreover have "d \<notin> set (drop (length b) dirpath) \<and> d \<notin> set dirs"
    if "(dirpath, dirs, files) \<in> set (yielded (os_walk fs prune_dirs b))"
    for b dirpath dirs files
  proof -
    from that obtain node ds es where
      "dirpath = b @ ds" "visits node ds = Some es"
      "dirs = prune_dirs (list_dirs es)"
      unfolding os_walk_iff by blast
    with nk show ?thesis by (auto dest: visits_kept simp: prune_dirs_def keep_dir_def)
  qed
  ultimately show ?thesis by blast
qed

theorem iter_files_prunes_excluded_witness:
  "wf_fs example_fs \<and> ''.git'' \<in> DEFAULT_EXCLUDE_DIRS
   \<and> list_all (\<lambda>e. ''.git'' \<notin> set (butlast (snd e)))
         (yielded (iter_files ascii_lower example_fs [''proj''] ''.'' None))
   \<and> [''c.py''] \<notin> set (map snd (yielded (iter_files ascii_lower example_fs [''proj''] ''.'' None)))
   \<and> [''.git'', ''c.py'']
       \<notin> set (map snd (yielded (iter_files ascii_lower example_fs [''proj''] ''.'' None)))
   \<and> [''a.py''] \<in> set (map snd (yielded (iter_files ascii_lower example_fs [''proj''] ''.'' None)))"
proof -
  have ex: "''.git'' \<in> DEFAULT_EXCLUDE_DIRS" by (simp add: DEFAULT_EXCLUDE_DIRS_def)
  then have "''.git'' \<in> DEFAULT_EXCLUDE_DIRS \<or> str_startswith ''.git'' ''.''" by simp
  from iter_files_prunes_excluded [OF wf_example this, of ascii_lower "[''proj'']" "''.''" None]
  have "list_all (\<lambda>e. ''.git'' \<notin> set (butlast (snd e)))
         (yielded (iter_files ascii_lower example_fs [''proj''] ''.'' None))"
    unfolding list_all_iff by fastforce
  with wf_example ex show ?thesis by (simp add: iter_example yielded_def)
qed

lemma str_rfind_from_eq:
  "str_rfind_from s c i found =
     (if c \<in> set s
      then i + int (length s) - 1 - int (length (takeWhile (\<lambda>x. x \<noteq> c) (rev s)))
      else found)"
proof (induction s arbitrary: i found)
  case Nil
  then show ?case by simp
next
  case (Cons x xs)
  show ?case
  proof (cases "c \<in> set xs")
    case True
    then have "takeWhile (\<lambda>x. x \<noteq> c) (rev xs @ [x]) = takeWhile (\<lambda>x. x \<noteq> c) (rev xs)"
      by (intro takeWhile_append1 [of c]) simp_all
    with True Cons show ?thesis by simp
  next
    case False
    then have nin: "\<forall>y \<in> set (rev xs). y \<noteq> c" by auto
    show ?thesis
    proof (cases "x = c")
      case True
      have "takeWhile (\<lambda>x. x \<noteq> c) (rev xs @ [c]) = rev xs @ takeWhile (\<lambda>x. x \<noteq> c) [c]"
        using nin by (intro takeWhile_append2) blast
      then have "takeWhile (\<lambda>x. x \<noteq> c) (rev xs @ [c]) = rev xs" by simp
      with True False Cons show ?thesis by simp
    next
      case neq: False
      with False Cons show ?thesis by simp
    qed
  qed
qed

lemma last_dot_split:
  assumes "CHR ''.'' \<in> set name"
  defines "after \<equiv> rev (takeWhile (\<lambda>c. c \<noteq> CHR ''.'') (rev name))"
  shows "name = take (length name - Suc (length after)) name @ CHR ''.'' # after"
    and "Suc (length after) \<le> length name"
proof -
  let ?P = "\<lambda>c. c \<noteq> CHR ''.''"
  have "dropWhile ?P (rev name) \<noteq> []"
    using assms(1) by (simp add: dropWhile_eq_Nil_conv)
  then obtain rest where rest: "dropWhile ?P (rev name) = CHR ''.'' # rest"
    using hd_dropWhile [of ?P "rev name"] by (cases "dropWhile ?P (rev name)") auto
  have "rev name = takeWhile ?P (rev name) @ dropWhile ?P (rev name)" by simp
  with rest have "rev name = takeWhile ?P (rev name) @ CHR ''.'' # rest" by simp
  then have "rev (rev name) = rev (takeWhile ?P (rev name) @ CHR ''.'' # rest)" by simp
  then have n: "name = rev rest @ CHR ''.'' # after" by (simp add: after_def)
  then have len: "length name = length rest + Suc (length after)" 
    by (metis length_append length_rev length_Cons)
  then show "Suc (length after) \<le> length name" by simp
  from len have "length name - Suc (length after) = length (rev rest)" by simp
  with n have "take (length name - Suc (length after)) name = rev rest"
    by (metis append_eq_conv_conj)
  with n show "name = take (length name - Suc (length after)) name @ CHR ''.'' # after" by simp
qed

lemma list_ex_upt_nth:
  assumes "n \<le> length xs"
  shows "list_ex (\<lambda>k. P (xs ! k)) [0 ..< n] = list_ex P (take n xs)"
proof -
  have "set (take n xs) = (\<lambda>k. xs ! k) ` {0 ..< n}"
    using nth_image [OF assms] by simp
  then show ?thesis by (auto simp: list_ex_iff)
qed

lemma splitext_extension:
  assumes "CHR ''/'' \<notin> set name"
  shows "snd (os_path_splitext name) = file_extension name"
proof (cases "CHR ''.'' \<in> set name")
  case False
  with assms show ?thesis
    by (simp add: os_path_splitext_def file_extension_def str_rfind_def str_rfind_from_eq Let_def)
next
  case True
  define after where "after = rev (takeWhile (\<lambda>c. c \<noteq> CHR ''.'') (rev name))"
  define d where "d = length name - Suc (length after)"
  from last_dot_split [OF True] have n: "name = take d name @ CHR ''.'' # after"
    and le: "Suc (length after) \<le> length name"
    by (simp_all add: after_def d_def)
  have sep: "str_rfind name (CHR ''/'') = - 1"
    using assms by (simp add: str_rfind_def str_rfind_from_eq)
  have dot: "str_rfind name (CHR ''.'') = int d"
    using True le by (simp add: str_rfind_def str_rfind_from_eq d_def after_def)
  have dl: "d \<le> length name" by (simp add: d_def)
  have "length (take d name) = d" using dl by simp
  with n have dr: "drop d name = CHR ''.'' # after"
    by (metis append_eq_conv_conj)
  have ex: "list_ex (\<lambda>k. name ! k \<noteq> CHR ''.'') [0 ..< d]
      = list_ex (\<lambda>c. c \<noteq> CHR ''.'') (take d name)"
    using list_ex_upt_nth [OF dl, of "\<lambda>c. c \<noteq> CHR ''.''"] by simp
  show ?thesis
    using True
    by (simp add: os_path_splitext_def file_extension_def sep dot Let_def ex dr
        flip: after_def d_def)
qed

lemma visited_names_valid:
  assumes "wf_fs fs" and "(dirpath, dirs, files) \<in> set (yielded (os_walk fs prune_dirs b))"
    and "name \<in> set files"
  shows "valid_name name"
proof -
  from assms(2) obtain node ds es where
    n: "lookup fs b = Inr node" and v: "visits node ds = Some es" and f: "files = list_nondirs es"
    unfolding os_walk_iff by blast
  from assms(1) n have "wf_fs node" by (rule lookup_wf)
  with v have "wf_fs (Dir None es)" using visits_valid by blast
  with f assms(3) show ?thesis by (auto intro: nondirs_valid)
qed

lemma walk_example:
  "os_walk example_fs prune_dirs [''proj''] =
     Inr [([''proj''], [''src''],
       [''a.py'', ''b.bin'', ''empty.txt'', ''latin1.txt'', ''locked.txt'', ''.gitignore'']),
      ([''proj'', ''src''], [], [''node_modules'', ''Main.PY''])]"
  by code_simp

lemma ext_Main: "ascii_lower (file_extension ''Main.PY'') = ''.py''"
  by code_simp

lemma ext_node_modules: "ascii_lower (file_extension ''node_modules'') = ''''"
  by code_simp

lemma relpath_example:
  "safe_relpath (os_path_join [''proj'', ''src''] ''Main.PY'') [''proj''] = [''src'', ''Main.PY'']"
  "safe_relpath (os_path_join [''proj'', ''src''] ''node_modules'') [''proj'']
     = [''src'', ''node_modules'']"
  "safe_relpath (os_path_join [''proj''] ''.gitignore'') [''proj''] = [''.gitignore'']"
  by code_simp+

text \<open>
  C5. For a file \<open>name\<close> listed in a directory that the traversal visits: with an
  extension set given, the file is yielded exactly when its lower-cased extension
  (with the leading dot) is in the set; with no set given (\<open>None\<close>) it is yielded. The
  extension is \<open>file_extension\<close>, which \<^verbatim>\<open>os.path.splitext\<close> computes, and the lowering
  is any function, Python's \<^verbatim>\<open>str.lower\<close> included.
\<close>

theorem iter_files_extension_filter:
  assumes "wf_fs fs" and "os_path_abspath fs cwd base = Inr b"
    and "(dirpath, dirs, files) \<in> set (yielded (os_walk fs prune_dirs b))"
    and "name \<in> set files"
  shows "((os_path_join dirpath name, safe_relpath (os_path_join dirpath name) b)
            \<in> set (yielded (iter_files lower fs cwd base (Some exts)))
          \<longleftrightarrow> lower (file_extension name) \<in> exts)
       \<and> (os_path_join dirpath name, safe_relpath (os_path_join dirpath name) b)
            \<in> set (yielded (iter_files lower fs cwd base None))
       \<and> lower (snd (os_path_splitext name)) = lower (file_extension name)"
proof -
  have "valid_name name" using assms(1,3,4) by (rule visited_names_valid)
  then have ext: "snd (os_path_splitext name) = file_extension name"
    by (intro splitext_extension) (simp add: valid_name_def)
  have "(os_path_join dirpath name, safe_relpath (os_path_join dirpath name) b)
          \<in> set (yielded (iter_files lower fs cwd base include_exts))
        \<longleftrightarrow> qualifies lower include_exts name"
    for include_exts
  proof
    assume "(os_path_join dirpath name, safe_relpath (os_path_join dirpath name) b)
          \<in> set (yielded (iter_files lower fs cwd base include_exts))"
    then obtain dirpath' name' where
      "os_path_join dirpath name = os_path_join dirpath' name'"
      "qualifies lower include_exts name'"
      unfolding iter_files_iff [OF assms(2)] by blast
    then show "qualifies lower include_exts name" by (simp add: os_path_join_def)
  next
    assume "qualifies lower include_exts name"
    with assms(3,4) show "(os_path_join dirpath name, safe_relpath (os_path_join dirpath name) b)
          \<in> set (yielded (iter_files lower fs cwd base include_exts))"
      unfolding iter_files_iff [OF assms(2)] by blast
  qed
  from this [of "Some exts"] this [of None] ext show ?thesis by (simp add: qualifies_def)
qed

theorem iter_files_extension_filter_witness:
  "([''proj'', ''src'', ''Main.PY''], [''src'', ''Main.PY''])
      \<in> set (yielded (iter_files ascii_lower example_fs [''proj''] ''.'' (Some {''.py''})))
   \<and> ([''proj'', ''src'', ''node_modules''], [''src'', ''node_modules''])
      \<notin> set (yielded (iter_files ascii_lower example_fs [''proj''] ''.'' (Some {''.py''})))
   \<and> ([''proj'', ''src'', ''node_modules''], [''src'', ''node_modules''])
      \<in> set (yielded (iter_files ascii_lower example_fs [''proj''] ''.'' None))
   \<and> iter_files ascii_lower example_fs [''proj''] ''.'' (Some {}) = Inr []"
proof -
  have t: "([''proj'', ''src''], [], [''node_modules'', ''Main.PY''])
      \<in> set (yielded (os_walk example_fs prune_dirs [''proj'']))"
    by (simp add: walk_example yielded_def)
  have 1: "([''proj'', ''src'', ''Main.PY''], [''src'', ''Main.PY''])
      \<in> set (yielded (iter_files ascii_lower example_fs [''proj''] ''.'' (Some {''.py''})))"
    using iter_files_extension_filter
      [OF wf_example abspath_example t, of "''Main.PY''" ascii_lower "{''.py''}"]
    by (simp add: ext_Main relpath_example) (simp add: os_path_join_def)
  have 2: "([''proj'', ''src'', ''node_modules''], [''src'', ''node_modules''])
      \<notin> set (yielded (iter_files ascii_lower example_fs [''proj''] ''.'' (Some {''.py''})))
    \<and> ([''proj'', ''src'', ''node_modules''], [''src'', ''node_modules''])
      \<in> set (yielded (iter_files ascii_lower example_fs [''proj''] ''.'' None))"
    using iter_files_extension_filter
      [OF wf_example abspath_example t, of "''node_modules''" ascii_lower "{''.py''}"]
    by (simp add: ext_node_modules relpath_example) (simp add: os_path_join_def)
  have 3: "iter_files ascii_lower example_fs [''proj''] ''.'' (Some {}) = Inr []"
    by code_simp
  from 1 2 3 show ?thesis by simp
qed

text \<open>
  C6. The exclusion applies to directory names only: a regular file in a visited
  directory is yielded when it passes the extension test, also when its name is in
  \<open>DEFAULT_EXCLUDE_DIRS\<close> or starts with a dot.
\<close>

theorem iter_files_keeps_excluded_file_names:
  assumes "os_path_abspath fs cwd base = Inr b"
    and "(dirpath, dirs, files) \<in> set (yielded (os_walk fs prune_dirs b))"
    and "lookup fs (os_path_join dirpath name) = Inr (File f c)"
    and "name \<in> DEFAULT_EXCLUDE_DIRS \<or> str_startswith name ''.''"
    and "qualifies lower include_exts name"
  shows "(os_path_join dirpath name, safe_relpath (os_path_join dirpath name) b)
           \<in> set (yielded (iter_files lower fs cwd base include_exts))"
proof -
  from assms(2) obtain node ds es where
    n: "lookup fs b = Inr node"
    and d: "dirpath = b @ ds" and v: "visits node ds = Some es"
    and fl: "files = list_nondirs es"
    unfolding os_walk_iff by blast
  from v have "lookup node ds = Inr (Dir None es)" by (rule visits_lookup)
  with n d have "lookup fs dirpath = Inr (Dir None es)" by (simp add: lookup_append)
  with assms(3) have "map_of es name = Some (File f c)"
    by (simp add: os_path_join_def lookup_append split: option.splits)
  then have "(name, File f c) \<in> set es" by (rule map_of_SomeD)
  then have "name \<in> set files" unfolding fl list_nondirs_def by force
  with assms(2,5) show ?thesis unfolding iter_files_iff [OF assms(1)] by blast
qed

theorem iter_files_keeps_excluded_file_names_witness:
  "([''proj'', ''.gitignore''], [''.gitignore''])
      \<in> set (yielded (iter_files ascii_lower example_fs [''proj''] ''.'' None))
   \<and> ([''proj'', ''src'', ''node_modules''], [''src'', ''node_modules''])
      \<in> set (yielded (iter_files ascii_lower example_fs [''proj''] ''.'' None))"
proof -
  have t1: "([''proj''], [''src''],
       [''a.py'', ''b.bin'', ''empty.txt'', ''latin1.txt'', ''locked.txt'', ''.gitignore''])
      \<in> set (yielded (os_walk example_fs prune_dirs [''proj'']))"
    by (simp add: walk_example yielded_def)
  have l1: "lookup example_fs (os_path_join [''proj''] ''.gitignore'')
      = Inr (File None (map of_char ''dist''))"
    by (simp add: example_fs_def os_path_join_def)
  have e1: "''.gitignore'' \<in> DEFAULT_EXCLUDE_DIRS \<or> str_startswith ''.gitignore'' ''.''"
    by (simp add: str_startswith_def)
  have q: "qualifies ascii_lower None name" for name by (simp add: qualifies_def)
  have 1: "([''proj'', ''.gitignore''], [''.gitignore''])
      \<in> set (yielded (iter_files ascii_lower example_fs [''proj''] ''.'' None))"
    using iter_files_keeps_excluded_file_names [OF abspath_example t1 l1 e1 q]
    by (simp add: relpath_example) (simp add: os_path_join_def)
  have t2: "([''proj'', ''src''], [], [''node_modules'', ''Main.PY''])
      \<in> set (yielded (os_walk example_fs prune_dirs [''proj'']))"
    by (simp add: walk_example yielded_def)
  have l2: "lookup example_fs (os_path_join [''proj'', ''src''] ''node_modules'')
      = Inr (File None (map of_char ''oops''))"
    by (simp add: example_fs_def os_path_join_def)
  have e2: "''node_modules'' \<in> DEFAULT_EXCLUDE_DIRS \<or> str_startswith ''node_modules'' ''.''"
    by (simp add: DEFAULT_EXCLUDE_DIRS_def)
  have 2: "([''proj'', ''src'', ''node_modules''], [''src'', ''node_modules''])
      \<in> set (yielded (iter_files ascii_lower example_fs [''proj''] ''.'' None))"
    using iter_files_keeps_excluded_file_names [OF abspath_example t2 l2 e2 q]
    by (simp add: relpath_example) (simp add: os_path_join_def)
  from 1 2 show ?thesis by simp
qed




section \<open>Walking the same tree twice\<close>

lemma is_dir_reorder: "is_dir (reorder \<pi> n) = is_dir n"
  by (cases n) simp_all

lemma map_of_reorder_entries:
  "map_of (map (\<lambda>e. (fst e, reorder \<pi> (snd e))) es) d = map_option (reorder \<pi>) (map_of es d)"
  by (induction es) auto

lemma map_of_permuted:
  assumes "mset es' = mset es" and "distinct (map fst es)"
  shows "map_of es' = map_of es"
proof -
  from assms(1) have "mset (map fst es') = mset (map fst es)" by simp
  with assms(2) have "distinct (map fst es')"
    using mset_eq_imp_distinct_iff by blast
  moreover from assms(1) have "set es' = set es" by (rule mset_eq_setD)
  ultimately show ?thesis using assms(2) by (simp add: map_of_inject_set)
qed

lemma entries_reordered:
  assumes perm: "\<forall>es. mset (\<pi> es) = mset es" and dist: "distinct (map fst es)"
  shows "map_of (\<pi> (map (\<lambda>e. (fst e, reorder \<pi> (snd e))) es)) d = map_option (reorder \<pi>) (map_of es d)"
    and "set (list_dirs (\<pi> (map (\<lambda>e. (fst e, reorder \<pi> (snd e))) es))) = set (list_dirs es)"
    and "set (list_nondirs (\<pi> (map (\<lambda>e. (fst e, reorder \<pi> (snd e))) es))) = set (list_nondirs es)"
proof -
  let ?es1 = "map (\<lambda>e. (fst e, reorder \<pi> (snd e))) es"
  have fst1: "map fst ?es1 = map fst es" by (simp add: comp_def)
  from perm have m: "mset (\<pi> ?es1) = mset ?es1" by blast
  with dist fst1 have "map_of (\<pi> ?es1) = map_of ?es1"
    by (intro map_of_permuted) (simp_all add: comp_def)
  then show "map_of (\<pi> ?es1) d = map_option (reorder \<pi>) (map_of es d)"
    by (simp add: map_of_reorder_entries)
  from m have s: "set (\<pi> ?es1) = set ?es1" by (rule mset_eq_setD)
  show "set (list_dirs (\<pi> ?es1)) = set (list_dirs es)"
    unfolding list_dirs_def set_map set_filter s
    by (force simp: is_dir_reorder)
  show "set (list_nondirs (\<pi> ?es1)) = set (list_nondirs es)"
    unfolding list_nondirs_def set_map set_filter s
    by (force simp: is_dir_reorder)
qed

lemma in_prune_dirs: "d \<in> set (prune_dirs xs) \<longleftrightarrow> d \<in> set xs \<and> keep_dir d"
  by (auto simp: prune_dirs_def keep_dir_def)

lemma visits_reorder:
  assumes perm: "\<forall>es. mset (\<pi> es) = mset es"
  shows "wf_fs node \<Longrightarrow>
    visits (reorder \<pi> node) ds = map_option (\<lambda>es. \<pi> (map (\<lambda>e. (fst e, reorder \<pi> (snd e))) es)) (visits node ds)"
proof (induction node ds rule: visits.induct)
  case (1 f c ds)
  then show ?case by simp
next
  case (2 e es ds)
  then show ?case by simp
next
  case (3 es)
  then show ?case by simp
next
  case (4 es d ds)
  let ?es' = "\<pi> (map (\<lambda>e. (fst e, reorder \<pi> (snd e))) es)"
  from "4.prems" have dist: "distinct (map fst es)" by simp
  note E = entries_reordered [OF perm dist]
  have mem: "d \<in> set (prune_dirs (list_dirs ?es')) \<longleftrightarrow> d \<in> set (prune_dirs (list_dirs es))"
    by (simp add: in_prune_dirs E)
  have mp: "map_of ?es' d = map_option (reorder \<pi>) (map_of es d)"
    by (rule E)
  show ?case
  proof (cases "d \<in> set (prune_dirs (list_dirs es))")
    case False
    then show ?thesis by (simp add: mem)
  next
    case True
    show ?thesis
    proof (cases "map_of es d")
      case None
      with True show ?thesis by (simp add: mem mp)
    next
      case (Some child)
      with "4.prems" have "wf_fs child" using wf_map_of by blast
      with "4.IH" [OF True Some] True Some show ?thesis
        by (simp add: mem mp)
    qed
  qed
qed

lemma lookup_reorder:
  assumes perm: "\<forall>es. mset (\<pi> es) = mset es"
  shows "wf_fs node \<Longrightarrow>
    lookup (reorder \<pi> node) p = (case lookup node p of Inl e \<Rightarrow> Inl e | Inr n \<Rightarrow> Inr (reorder \<pi> n))"
proof (induction node p rule: lookup.induct)
  case (1 node)
  then show ?case by simp
next
  case (2 f c n ns)
  then show ?case by simp
next
  case (3 f es n ns)
  from "3.prems" have dist: "distinct (map fst es)" by simp
  note E = entries_reordered [OF perm dist]
  show ?case
  proof (cases "map_of es n")
    case None
    then show ?thesis by (simp add: E)
  next
    case (Some child)
    with "3.prems" have "wf_fs child" using wf_map_of by blast
    with "3.IH" [OF Some] Some show ?thesis by (simp add: E)
  qed
qed

lemma isdir_at_reorder:
  assumes "\<forall>es. mset (\<pi> es) = mset es" and "wf_fs fs"
  shows "isdir_at (reorder \<pi> fs) q = isdir_at fs q"
proof (cases "lookup fs q")
  case (Inl e)
  then show ?thesis by (simp add: isdir_at_def lookup_reorder [OF assms])
next
  case (Inr n)
  then show ?thesis by (cases n) (simp_all add: isdir_at_def lookup_reorder [OF assms])
qed

lemma abspath_reorder:
  assumes "\<forall>es. mset (\<pi> es) = mset es" and "wf_fs fs"
  shows "os_path_abspath (reorder \<pi> fs) cwd base = os_path_abspath fs cwd base"
  by (simp add: os_path_abspath_def os_getcwd_def isdir_at_reorder [OF assms])

lemma visited_files_reorder:
  assumes perm: "\<forall>es. mset (\<pi> es) = mset es" and wf: "wf_fs fs"
  shows "(\<exists>dirs files. (dirpath, dirs, files) \<in> set (yielded (os_walk (reorder \<pi> fs) prune_dirs tp))
            \<and> name \<in> set files)
     \<longleftrightarrow> (\<exists>dirs files. (dirpath, dirs, files) \<in> set (yielded (os_walk fs prune_dirs tp))
            \<and> name \<in> set files)"
proof (cases "lookup fs tp")
  case (Inl e)
  then show ?thesis
    by (simp add: os_walk_def yielded_def lookup_reorder [OF perm wf])
next
  case (Inr node)
  with wf have wfn: "wf_fs node" by (rule lookup_wf)
  have "visits node ds = Some es \<Longrightarrow> distinct (map fst es)" for ds es
    using visits_valid [OF wfn] by fastforce
  then show ?thesis
    unfolding os_walk_iff
    by (auto simp: Inr lookup_reorder [OF perm wf] visits_reorder [OF perm wfn]
        entries_reordered [OF perm])
qed

lemma iter_files_result:
  "iter_files lower fs cwd base include_exts =
     (case os_path_abspath fs cwd base of
        Inl e \<Rightarrow> Inl e
      | Inr b \<Rightarrow> if has_nul b then Inl ValueError
                 else Inr (yielded (iter_files lower fs cwd base include_exts)))"
  by (auto simp: iter_files_def os_walk_def yielded_def split: sum.splits)

lemma iter_example_rev:
  "iter_files ascii_lower (reorder rev example_fs) [''proj''] ''.'' None =
     Inr [([''proj'', ''.gitignore''], [''.gitignore'']),
      ([''proj'', ''locked.txt''], [''locked.txt'']),
      ([''proj'', ''latin1.txt''], [''latin1.txt'']),
      ([''proj'', ''empty.txt''], [''empty.txt'']),
      ([''proj'', ''b.bin''], [''b.bin'']),
      ([''proj'', ''a.py''], [''a.py'']),
      ([''proj'', ''src'', ''Main.PY''], [''src'', ''Main.PY'']),
      ([''proj'', ''src'', ''node_modules''], [''src'', ''node_modules''])]"
  by code_simp

lemma reorder_same: "reorder (\<lambda>es. es) node = node"
proof (induction node)
  case (File f c)
  then show ?case by simp
next
  case (Dir f es)
  have "map (\<lambda>e. (fst e, reorder (\<lambda>es. es) (snd e))) es = map (\<lambda>e. e) es"
  proof (rule map_cong [OF refl])
    fix e assume mem: "e \<in> set es"
    obtain n c where e: "e = (n, c)" by (cases e)
    have "c \<in> Basic_BNFs.snds (n, c)" by simp
    with mem e have "reorder (\<lambda>es. es) c = c" using Dir.IH [of "(n, c)" c] by blast
    with e show "(fst e, reorder (\<lambda>es. es) (snd e)) = e" by simp
  qed
  then show ?case by simp
qed

text \<open>
  C7. \<^verbatim>\<open>iter_files\<close> reads the filesystem and changes nothing, and its result depends
  on the tree, the current directory and its arguments only. What can differ between
  two calls over an unchanged tree is the order in which the operating system lists
  a directory: the second call sees \<open>reorder \<pi> fs\<close> for some rearrangement \<open>\<pi>\<close> of
  every listing (\<open>\<pi>\<close> keeps the entries, as a multiset). For a well-formed tree both
  calls end the same way, and when they yield, they yield the same set of pairs and
  so the same set of relative paths.
\<close>

theorem iter_files_idempotent:
  assumes "wf_fs fs" and "\<forall>es. mset (\<pi> es) = mset es"
  shows "map_sum id set (iter_files lower (reorder \<pi> fs) cwd base include_exts)
           = map_sum id set (iter_files lower fs cwd base include_exts)
       \<and> set (map snd (yielded (iter_files lower (reorder \<pi> fs) cwd base include_exts)))
           = set (map snd (yielded (iter_files lower fs cwd base include_exts)))"
proof -
  note ab = abspath_reorder [OF assms(2,1)]
  have y: "set (yielded (iter_files lower (reorder \<pi> fs) cwd base include_exts))
         = set (yielded (iter_files lower fs cwd base include_exts))"
  proof (cases "os_path_abspath fs cwd base")
    case (Inl e)
    then show ?thesis by (simp add: iter_files_def ab yielded_def)
  next
    case (Inr b)
    have "(full, rel) \<in> set (yielded (iter_files lower (reorder \<pi> fs) cwd base include_exts))
      \<longleftrightarrow> (full, rel) \<in> set (yielded (iter_files lower fs cwd base include_exts))"
      for full rel
      unfolding iter_files_iff [OF Inr] iter_files_iff [OF Inr [folded ab]]
      using visited_files_reorder [OF assms(2,1)] by metis
    then show ?thesis by auto
  qed
  have "map_sum id set (iter_files lower (reorder \<pi> fs) cwd base include_exts)
           = map_sum id set (iter_files lower fs cwd base include_exts)"
    by (subst iter_files_result, subst (2) iter_files_result)
       (simp add: ab y split: sum.splits)
  with y show ?thesis by simp
qed

theorem iter_files_idempotent_witness:
  "wf_fs example_fs
   \<and> set (map snd (yielded (iter_files ascii_lower (reorder rev example_fs) [''proj''] ''.'' None)))
     = set (map snd (yielded (iter_files ascii_lower example_fs [''proj''] ''.'' None)))
   \<and> iter_files ascii_lower (reorder rev example_fs) [''proj''] ''.'' None
     \<noteq> iter_files ascii_lower example_fs [''proj''] ''.'' None
   \<and> reorder (\<lambda>es. es) example_fs = example_fs"
proof -
  have "\<forall>es :: (string \<times> fsnode) list. mset (rev es) = mset es" by simp
  from iter_files_idempotent [OF wf_example this, of ascii_lower "[''proj'']" "''.''" None]
  have "set (map snd (yielded (iter_files ascii_lower (reorder rev example_fs) [''proj''] ''.'' None)))
     = set (map snd (yielded (iter_files ascii_lower example_fs [''proj''] ''.'' None)))"
    by blast
  moreover have "iter_files ascii_lower (reorder rev example_fs) [''proj''] ''.'' None
     \<noteq> iter_files ascii_lower example_fs [''proj''] ''.'' None"
    by (simp add: iter_example iter_example_rev)
  ultimately show ?thesis using wf_example reorder_same by blast
qed

end
